theory Spec2Isabelle
  imports Main "HOL-Library.Word"
begin

unbundle bit_operations_syntax

chapter \<open>The embedding of the sources\<close>

section \<open>The sequential binary min-heap (mu/alg/heap.h, mu/adt/heap.h)\<close>

text \<open>
  Indices are \<open>size_t\<close>. The child indices cannot wrap for an index inside the
  container (the source says so: the container refuses to grow first), so they are
  natural numbers; \<open>parent_index\<close> is also called with \<open>i = 0\<close> at the end of
  \<open>bubble_last\<close>, where \<open>i - 1\<close> wraps, so its wrap-around is written out.
\<close>

definition left_child_index :: "nat \<Rightarrow> nat" where
  "left_child_index i = (2 * i) + 1"

definition parent_index :: "nat \<Rightarrow> nat" where
  "parent_index i = ((i + 2 ^ 64 - 1) mod 2 ^ 64) div 2"

definition right_child_index :: "nat \<Rightarrow> nat" where
  "right_child_index i = (2 * i) + 2"

text \<open>\<open>std::swap(a[i], a[j])\<close> on a random-access sequence.\<close>

definition swap_at :: "'a list \<Rightarrow> nat \<Rightarrow> nat \<Rightarrow> 'a list" where
  "swap_at a i j = (a[i := a ! j])[j := a ! i]"

text \<open>
  The loop of \<open>bubble_last\<close>: \<open>p\<close> is \<open>parent_index(i)\<close> at every test of the
  loop condition, so the loop state is the sequence and \<open>i\<close>.
\<close>

function bubble_loop :: "'a::linorder list \<Rightarrow> nat \<Rightarrow> 'a list" where
  "bubble_loop a i =
     (if i > 0 \<and> a ! i < a ! parent_index i
      then bubble_loop (swap_at a i (parent_index i)) (parent_index i)
      else a)"
  by pat_completeness auto

termination
proof (relation "measure (\<lambda>(a, i). i)")
  show "wf (measure (\<lambda>(a :: 'a list, i). i))" by simp
next
  fix a :: "'a list" and i :: nat
  assume "0 < i \<and> a ! i < a ! parent_index i"
  then have pos: "0 < i" by simp
  have "(i + 2 ^ 64 - 1) mod 2 ^ 64 \<le> i - 1"
  proof (cases "i \<le> 2 ^ 64")
    case True
    show ?thesis
    proof (cases "i = 2 ^ 64")
      case True
      then show ?thesis by simp
    next
      case False
      with True pos have "i + 2 ^ 64 - 1 = (i - 1) + 1 * 2 ^ 64" "i - 1 < 2 ^ 64"
        by simp_all
      then show ?thesis by (metis mod_less mod_mult_self1 order_refl)
    qed
  next
    case False
    have "(i + 2 ^ 64 - 1) mod 2 ^ 64 < (2 ^ 64 :: nat)" by simp
    with False show ?thesis by linarith
  qed
  then have "parent_index i \<le> (i - 1)"
    unfolding parent_index_def by (meson div_le_dividend le_trans)
  with pos show "((swap_at a i (parent_index i), parent_index i), (a, i)) \<in> measure (\<lambda>(a, i). i)"
    by simp
qed

definition bubble_last :: "'a::linorder list \<Rightarrow> 'a list" where
  "bubble_last a =
     (if a = [] then a
      else let i = length a - 1 in
        if i < 1 then a else bubble_loop a i)"

text \<open>The \<open>while (true)\<close> loop of \<open>sift_first\<close>, from index \<open>i\<close>.\<close>

function sift_loop :: "'a::linorder list \<Rightarrow> nat \<Rightarrow> 'a list" where
  "sift_loop a i =
     (let l = left_child_index i; r = right_child_index i in
      if l \<ge> length a then a
      else if r \<ge> length a then (if a ! l < a ! i then swap_at a l i else a)
      else if a ! i < a ! l \<and> a ! i < a ! r then a
      else if a ! l < a ! r then sift_loop (swap_at a l i) l
      else sift_loop (swap_at a r i) r)"
  by pat_completeness auto

termination
  by (relation "measure (\<lambda>(a, i). length a - i)")
     (auto simp: swap_at_def left_child_index_def right_child_index_def)

definition sift_first :: "'a::linorder list \<Rightarrow> 'a list" where
  "sift_first a = (if a = [] then a else sift_loop a 0)"

text \<open>
  \<open>push\<close>, \<open>pop\<close> and \<open>top\<close> of \<open>mu::alg::heap\<close>. \<open>pop\<close> and \<open>top\<close> assert that
  the sequence is not empty: the failed assertion is the value \<open>None\<close>.
\<close>

definition heap_push :: "'a::linorder list \<Rightarrow> 'a \<Rightarrow> 'a list" where
  "heap_push a e = bubble_last (a @ [e])"

definition heap_pop :: "'a::linorder list \<Rightarrow> 'a list option" where
  "heap_pop a =
     (if a = [] then None
      else if length a = 1 then Some (tl a)
      else Some (sift_first (butlast (swap_at a 0 (length a - 1)))))"

definition heap_top :: "'a list \<Rightarrow> 'a option" where
  "heap_top a = (if a = [] then None else Some (a ! 0))"

text \<open>
  \<open>mu::adt::heap\<close>: the container \<open>heap_\<close> (here \<open>heap_f\<close>) and the members that
  forward to \<open>mu::alg::heap\<close>. \<open>pop\<close> and \<open>top\<close> on an empty heap are \<open>None\<close>.
\<close>

record 'a adt_heap =
  heap_f :: "'a list"

definition adt_push :: "'a::linorder adt_heap \<Rightarrow> 'a \<Rightarrow> 'a adt_heap" where
  "adt_push h e = h\<lparr>heap_f := heap_push (heap_f h) e\<rparr>"

definition adt_pop :: "'a::linorder adt_heap \<Rightarrow> 'a adt_heap option" where
  "adt_pop h = (case heap_pop (heap_f h) of None \<Rightarrow> None | Some a \<Rightarrow> Some (h\<lparr>heap_f := a\<rparr>))"

definition adt_top :: "'a adt_heap \<Rightarrow> 'a option" where
  "adt_top h = heap_top (heap_f h)"

text \<open>
  The driver of the heap test: push every element onto the heap, then read \<open>top\<close> and
  \<open>pop\<close> the given number of times, collecting what \<open>top\<close> returned.
\<close>

fun push_all :: "'a::linorder adt_heap \<Rightarrow> 'a list \<Rightarrow> 'a adt_heap" where
  "push_all h [] = h"
| "push_all h (e # es) = push_all (adt_push h e) es"

fun top_pop_all :: "nat \<Rightarrow> 'a::linorder adt_heap \<Rightarrow> 'a list option" where
  "top_pop_all 0 h = Some []"
| "top_pop_all (Suc n) h =
     (case adt_top h of
        None \<Rightarrow> None
      | Some t \<Rightarrow>
          (case adt_pop h of
             None \<Rightarrow> None
           | Some h' \<Rightarrow> map_option ((#) t) (top_pop_all n h')))"

section \<open>Tagged pointers\<close>

text \<open>
  A pointer is one 64-bit machine word. The upper 16 bits carry the tag, the lower 48
  bits the address (the static assertions of mu/lf/tag.h fix these sizes).
\<close>

type_synonym ptr = "64 word"

type_synonym tag_t = "16 word"

subsection \<open>mu/lf/tag.h\<close>

definition TAG_SHIFT_COUNT :: nat where
  "TAG_SHIFT_COUNT = (8 - 2) * 8"

definition TAG_MASK :: ptr where
  "TAG_MASK = push_bit TAG_SHIFT_COUNT (- 1)"

definition untag :: "ptr \<Rightarrow> ptr" where
  "untag p = p AND NOT TAG_MASK"

definition get_tag :: "ptr \<Rightarrow> tag_t" where
  "get_tag p = ucast (drop_bit TAG_SHIFT_COUNT p)"

text \<open>
  \<open>tag(p, t)\<close>: the parameter is a \<open>tag_t\<close>, so the caller's \<open>get_tag(q) + 1\<close> is
  truncated to 16 bits; on \<open>tag_t\<close> the addition wraps in the same way.
\<close>

definition tag :: "ptr \<Rightarrow> tag_t \<Rightarrow> ptr" where
  "tag p t = untag p OR push_bit TAG_SHIFT_COUNT (ucast t)"

definition inctag :: "ptr \<Rightarrow> ptr" where
  "inctag p = tag p (get_tag p + 1)"

subsection \<open>mu/tagged\_ptr.h, the x86-64 branch\<close>

definition MASK :: ptr where
  "MASK = 0xffff000000000000"

text \<open>\<open>arch::tag(T*)\<close> reads the tag as a \<open>size_t\<close>.\<close>

definition arch_get_tag :: "ptr \<Rightarrow> 64 word" where
  "arch_get_tag p = drop_bit 48 p"

definition arch_untag :: "ptr \<Rightarrow> ptr" where
  "arch_untag p = p AND NOT MASK"

text \<open>\<open>arch::tag(T*, size_t)\<close>: the shift drops the bits of the tag above 16.\<close>

definition arch_tag :: "ptr \<Rightarrow> 64 word \<Rightarrow> ptr" where
  "arch_tag p t = arch_untag p OR push_bit 48 t"

definition set_tag :: "ptr \<Rightarrow> ptr \<Rightarrow> ptr" where
  "set_tag p q = arch_tag p (arch_get_tag q)"

definition increment_tag :: "ptr \<Rightarrow> ptr" where
  "increment_tag p = arch_tag p (arch_get_tag p + 1)"

text \<open>
  \<open>compare_exchange_strong\<close> / \<open>compare_set_strong\<close> on one atomic word, run without
  interference: the content of the word, the expected and the desired value give
  whether the swap happened and the new content. Whole words are compared.
\<close>

definition compare_set_strong :: "ptr \<Rightarrow> ptr \<Rightarrow> ptr \<Rightarrow> bool \<times> ptr" where
  "compare_set_strong content expected desired =
     (if content = expected then (True, desired) else (False, content))"

section \<open>Nodes, the allocator and outcomes\<close>

text \<open>
  The node of the stack and of the queue: a value and a tagged \<open>next_\<close> word. A name
  cannot end in an underscore here, so a member \<open>x_\<close> of the sources is the field
  \<open>x_f\<close>. The heap of nodes is a map from addresses to nodes.
\<close>

record 'a node =
  value_f :: 'a
  next_f :: ptr

type_synonym 'a cells = "ptr \<rightharpoonup> 'a node"

text \<open>
  \<open>operator new\<close> is an oracle: the list of its future results, \<open>None\<close> where it
  throws \<open>std::bad_alloc\<close>. An exhausted list throws as well.
\<close>

type_synonym allocator = "ptr option list"

fun new :: "allocator \<Rightarrow> ptr option \<times> allocator" where
  "new [] = (None, [])"
| "new (r # rs) = (r, rs)"

text \<open>
  \<open>delete p\<close>: nothing for the null pointer, the node is released when \<open>p\<close> is the
  address of one, and undefined otherwise (\<open>None\<close>).
\<close>

definition delete :: "'a cells \<Rightarrow> ptr \<Rightarrow> 'a cells option" where
  "delete c p = (if p = 0 then Some c else if p \<in> dom c then Some (c(p := None)) else None)"

datatype exn = bad_alloc | user_exception

text \<open>
  What a call does: it returns a result and the new state, it throws with the state it
  leaves behind, or its behaviour is undefined (a null or dangling pointer is
  dereferenced, an assertion fails).
\<close>

datatype ('r, 's) outcome = Return 'r 's | Throw exn 's | Undefined

text \<open>
  The user's value type \<open>T\<close>: its default value, and its copy and move operations
  (construction and assignment), which yield the stored value or raise (\<open>None\<close>).
\<close>

record 'a value_type =
  T_default :: 'a
  T_copy :: "'a \<Rightarrow> 'a option"
  T_move :: "'a \<Rightarrow> 'a option"

section \<open>The intrusive stack (mu/lf/impl/stack.h)\<close>

text \<open>
  The stack is its \<open>head_\<close> word; the nodes live in the heap. A call that dereferences
  a pointer to no node has undefined behaviour: \<open>None\<close>. The retry branch of each
  loop is kept; without interference the swap succeeds at once. The revision on raw
  pointers calls \<open>untag\<close> and \<open>inctag\<close> of mu/lf/tag.h where this one calls the members
  of \<open>tagged_ptr\<close>; they are the same functions (\<open>arch_untag_untag\<close>,
  \<open>increment_tag_inctag\<close>).
\<close>

function impl_push :: "'a cells \<Rightarrow> ptr \<Rightarrow> ptr \<Rightarrow> ('a cells \<times> ptr) option" where
  "impl_push c head e =
     (let h = head in
      case c (arch_untag e) of
        None \<Rightarrow> None
      | Some en \<Rightarrow>
          let c' = c(arch_untag e \<mapsto> en\<lparr>next_f := h\<rparr>) in
          if fst (compare_set_strong head h (increment_tag e))
          then Some (c', snd (compare_set_strong head h (increment_tag e)))
          else impl_push c' (snd (compare_set_strong head h (increment_tag e))) e)"
  by pat_completeness auto

termination
  by (relation "{}") (auto simp: compare_set_strong_def)

text \<open>The result of \<open>pop\<close>: the popped word (\<open>None\<close> for \<open>false\<close>) and the new head.\<close>

function impl_pop :: "'a cells \<Rightarrow> ptr \<Rightarrow> (ptr option \<times> ptr) option" where
  "impl_pop c head =
     (let h = head in
      if arch_untag h = 0 then Some (None, head)
      else
        case c (arch_untag h) of
          None \<Rightarrow> None
        | Some hn \<Rightarrow>
            let n = next_f hn in
            if fst (compare_set_strong head h (increment_tag n))
            then Some (Some h, snd (compare_set_strong head h (increment_tag n)))
            else impl_pop c (snd (compare_set_strong head h (increment_tag n))))"
  by pat_completeness auto

termination
  by (relation "{}") (auto simp: compare_set_strong_def)

definition impl_empty :: "ptr \<Rightarrow> bool" where
  "impl_empty head = (arch_untag head = 0)"

section \<open>The public stack (mu/lf/stack.h)\<close>

text \<open>
  The object holds the two intrusive stacks \<open>free_\<close> and \<open>stack_\<close> (their head
  words, here \<open>free_f\<close> and \<open>stack_f\<close>); its nodes live in a heap of their own, with
  the allocator that serves them.
\<close>

record 'a stack =
  s_nodes :: "'a cells"
  s_new :: allocator
  free_f :: ptr
  stack_f :: ptr

definition DEFAULT_INITIAL_CAPACITY :: "64 word" where
  "DEFAULT_INITIAL_CAPACITY = 8192"

text \<open>
  \<open>destroy\<close>: the assertion, then the loop that pops and deletes the free nodes.
  Each round of the loop releases a node, so the loop ends.
\<close>

function stack_destroy_loop :: "'a stack \<Rightarrow> 'a stack option" where
  "stack_destroy_loop s =
     (case impl_pop (s_nodes s) (free_f s) of
        None \<Rightarrow> None
      | Some (None, fh) \<Rightarrow> Some (s\<lparr>free_f := fh\<rparr>)
      | Some (Some n, fh) \<Rightarrow>
          (case delete (s_nodes s) (arch_untag n) of
             None \<Rightarrow> None
           | Some c \<Rightarrow> stack_destroy_loop (s\<lparr>s_nodes := c, free_f := fh\<rparr>)))"
  by pat_completeness auto

termination
proof (relation "measure (\<lambda>s. card (dom (s_nodes s)))")
  show "wf (measure (\<lambda>s :: 'a stack. card (dom (s_nodes s))))" by simp
next
  fix s :: "'a stack" and x2 x1 fh n c
  assume pop: "impl_pop (s_nodes s) (free_f s) = Some x2" "(x1, fh) = x2" "x1 = Some n"
    and del: "delete (s_nodes s) (arch_untag n) = Some c"
  from pop have "arch_untag n \<noteq> 0"
    by (subst (asm) impl_pop.simps)
       (auto simp: Let_def compare_set_strong_def split: if_splits option.splits)
  with del have "arch_untag n \<in> dom (s_nodes s)" "c = (s_nodes s)(arch_untag n := None)"
    by (auto simp: delete_def split: if_splits)
  then have "dom c = dom (s_nodes s) - {arch_untag n}" "arch_untag n \<in> dom (s_nodes s)"
    by auto
  then have "card (dom c) < card (dom (s_nodes s))"
    using card_Diff1_less [of "dom (s_nodes s)" "arch_untag n"] by simp
  then show "(s\<lparr>s_nodes := c, free_f := fh\<rparr>, s) \<in> measure (\<lambda>s. card (dom (s_nodes s)))"
    by simp
qed

definition stack_empty :: "'a stack \<Rightarrow> bool" where
  "stack_empty s = impl_empty (stack_f s)"

definition stack_destroy :: "'a stack \<Rightarrow> (unit, 'a stack) outcome" where
  "stack_destroy s =
     (if \<not> stack_empty s then Undefined
      else case stack_destroy_loop s of None \<Rightarrow> Undefined | Some s' \<Rightarrow> Return () s')"

text \<open>
  The \<open>for\<close> loop of the constructor, with the number of rounds left: \<open>new node()\<close>
  (the default value, a null \<open>next_\<close>), then \<open>free_.push(n)\<close>.
\<close>

fun stack_fill :: "'a value_type \<Rightarrow> nat \<Rightarrow> 'a stack \<Rightarrow> (unit, 'a stack) outcome" where
  "stack_fill T 0 s = Return () s"
| "stack_fill T (Suc k) s =
     (case new (s_new s) of
        (None, rest) \<Rightarrow> Throw bad_alloc (s\<lparr>s_new := rest\<rparr>)
      | (Some a, rest) \<Rightarrow>
          let n = a;
              s1 = s\<lparr>s_new := rest,
                     s_nodes := (s_nodes s)(a \<mapsto> \<lparr>value_f = T_default T, next_f = 0\<rparr>)\<rparr>
          in case impl_push (s_nodes s1) (free_f s1) n of
               None \<Rightarrow> Undefined
             | Some (c, fh) \<Rightarrow> stack_fill T k (s1\<lparr>s_nodes := c, free_f := fh\<rparr>))"

text \<open>
  The constructor, given the allocator: the handler calls \<open>destroy\<close> and does not
  rethrow.
\<close>

definition stack_ctor :: "'a value_type \<Rightarrow> 64 word \<Rightarrow> allocator \<Rightarrow> (unit, 'a stack) outcome" where
  "stack_ctor T initial_capacity alloc =
     (case stack_fill T (unat initial_capacity)
             \<lparr>s_nodes = Map.empty, s_new = alloc, free_f = 0, stack_f = 0\<rparr> of
        Return u s \<Rightarrow> Return () s
      | Throw e s \<Rightarrow> stack_destroy s
      | Undefined \<Rightarrow> Undefined)"

text \<open>\<open>new node(v)\<close>: the allocation, then the copy of \<open>v\<close> into the node.\<close>

definition new_node_of :: "'a value_type \<Rightarrow> 'a \<Rightarrow> 'a stack \<Rightarrow> (ptr, 'a stack) outcome" where
  "new_node_of T v s =
     (case new (s_new s) of
        (None, rest) \<Rightarrow> Throw bad_alloc (s\<lparr>s_new := rest\<rparr>)
      | (Some a, rest) \<Rightarrow>
          (case T_copy T v of
             None \<Rightarrow> Throw user_exception (s\<lparr>s_new := rest\<rparr>)
           | Some v' \<Rightarrow>
               Return a (s\<lparr>s_new := rest,
                           s_nodes := (s_nodes s)(a \<mapsto> \<lparr>value_f = v', next_f = 0\<rparr>)\<rparr>)))"

definition stack_push :: "'a value_type \<Rightarrow> 'a \<Rightarrow> 'a stack \<Rightarrow> (unit, 'a stack) outcome" where
  "stack_push T v s =
     (case impl_pop (s_nodes s) (free_f s) of
        None \<Rightarrow> Undefined
      | Some (popped, fh) \<Rightarrow>
          (case (case popped of
                   Some n \<Rightarrow> Return n (s\<lparr>free_f := fh\<rparr>)
                 | None \<Rightarrow> new_node_of T v (s\<lparr>free_f := fh\<rparr>)) of
             Undefined \<Rightarrow> Undefined
           | Throw e s1 \<Rightarrow> Throw e s1
           | Return n s1 \<Rightarrow>
               (case s_nodes s1 (arch_untag n) of
                  None \<Rightarrow> Undefined
                | Some nd \<Rightarrow>
                    (case T_copy T v of
                       None \<Rightarrow> Throw user_exception s1
                     | Some v' \<Rightarrow>
                         (case impl_push ((s_nodes s1)(arch_untag n \<mapsto> nd\<lparr>value_f := v'\<rparr>))
                                 (stack_f s1) n of
                            None \<Rightarrow> Undefined
                          | Some (c, sh) \<Rightarrow> Return () (s1\<lparr>s_nodes := c, stack_f := sh\<rparr>))))))"

text \<open>
  \<open>emplace\<close>: the handler deletes a node that was allocated by this call and pushes
  back a node that came from the free list; it does not rethrow.
\<close>

definition stack_emplace :: "'a value_type \<Rightarrow> 'a \<Rightarrow> 'a stack \<Rightarrow> (unit, 'a stack) outcome" where
  "stack_emplace T v s =
     (case impl_pop (s_nodes s) (free_f s) of
        None \<Rightarrow> Undefined
      | Some (popped, fh) \<Rightarrow>
          (case (case popped of
                   Some n \<Rightarrow> Return (n, False) (s\<lparr>free_f := fh\<rparr>)
                 | None \<Rightarrow>
                     (case new_node_of T v (s\<lparr>free_f := fh\<rparr>) of
                        Return n s1 \<Rightarrow> Return (n, True) s1
                      | Throw e s1 \<Rightarrow> Throw e s1
                      | Undefined \<Rightarrow> Undefined)) of
             Undefined \<Rightarrow> Undefined
           | Throw e s1 \<Rightarrow> Throw e s1
           | Return (n, allocated) s1 \<Rightarrow>
               (case s_nodes s1 (arch_untag n) of
                  None \<Rightarrow> Undefined
                | Some nd \<Rightarrow>
                    (case T_move T v of
                       Some v' \<Rightarrow>
                         (case impl_push ((s_nodes s1)(arch_untag n \<mapsto> nd\<lparr>value_f := v'\<rparr>))
                                 (stack_f s1) n of
                            None \<Rightarrow> Undefined
                          | Some (c, sh) \<Rightarrow> Return () (s1\<lparr>s_nodes := c, stack_f := sh\<rparr>))
                     | None \<Rightarrow>
                         if allocated
                         then (case delete (s_nodes s1) (arch_untag n) of
                                 None \<Rightarrow> Undefined
                               | Some c \<Rightarrow> Return () (s1\<lparr>s_nodes := c\<rparr>))
                         else (case impl_push (s_nodes s1) (free_f s1) n of
                                 None \<Rightarrow> Undefined
                               | Some (c, fh') \<Rightarrow> Return () (s1\<lparr>s_nodes := c, free_f := fh'\<rparr>))))))"

text \<open>
  \<open>pop(T& out)\<close>: the result is the value assigned to \<open>out\<close>, \<open>None\<close> for
  \<open>false\<close>. The popped node is neither deleted nor pushed onto \<open>free_\<close>.
\<close>

definition stack_pop :: "'a value_type \<Rightarrow> 'a stack \<Rightarrow> ('a option, 'a stack) outcome" where
  "stack_pop T s =
     (case impl_pop (s_nodes s) (stack_f s) of
        None \<Rightarrow> Undefined
      | Some (None, sh) \<Rightarrow> Return None (s\<lparr>stack_f := sh\<rparr>)
      | Some (Some n, sh) \<Rightarrow>
          (case s_nodes s (arch_untag n) of
             None \<Rightarrow> Undefined
           | Some nd \<Rightarrow>
               (case T_copy T (value_f nd) of
                  None \<Rightarrow> Throw user_exception (s\<lparr>stack_f := sh\<rparr>)
                | Some out \<Rightarrow>
                    (case T_move T (T_default T) of
                       None \<Rightarrow> Throw user_exception (s\<lparr>stack_f := sh\<rparr>)
                     | Some d \<Rightarrow>
                         Return (Some out)
                           (s\<lparr>stack_f := sh,
                              s_nodes := (s_nodes s)(arch_untag n \<mapsto> nd\<lparr>value_f := d\<rparr>)\<rparr>)))))"

section \<open>Abstraction of linked nodes\<close>

text \<open>
  \<open>path c p as\<close>: from the word \<open>p\<close> the \<open>next_\<close> fields lead through exactly the
  nodes at the addresses \<open>as\<close> and then to a null address.
\<close>

fun path :: "'a cells \<Rightarrow> ptr \<Rightarrow> ptr list \<Rightarrow> bool" where
  "path c p [] = (untag p = 0)"
| "path c p (a # as) =
     (untag p = a \<and> a \<noteq> 0 \<and> (case c a of None \<Rightarrow> False | Some n \<Rightarrow> path c (next_f n) as))"

text \<open>
  What is assumed of \<open>operator new\<close>: each address it returns is not null, has no tag
  bits set, and is the address of no live node and of no node returned before.
\<close>

fun fresh :: "ptr set \<Rightarrow> allocator \<Rightarrow> bool" where
  "fresh D [] = True"
| "fresh D (None # rs) = fresh D rs"
| "fresh D (Some a # rs) = (a \<noteq> 0 \<and> untag a = a \<and> a \<notin> D \<and> fresh (insert a D) rs)"

text \<open>The next \<open>k\<close> allocations succeed.\<close>

definition available :: "nat \<Rightarrow> allocator \<Rightarrow> bool" where
  "available k al = (k \<le> length al \<and> None \<notin> set (take k al))"

text \<open>
  The invariant of the public stack: \<open>free_\<close> links the nodes \<open>fs\<close>, \<open>stack_\<close> the
  nodes \<open>ss\<close>, no node is linked twice, and the allocator is fresh for the heap.
\<close>

definition stack_inv :: "'a stack \<Rightarrow> ptr list \<Rightarrow> ptr list \<Rightarrow> bool" where
  "stack_inv s fs ss =
     (path (s_nodes s) (free_f s) fs \<and> path (s_nodes s) (stack_f s) ss \<and>
      distinct (fs @ ss) \<and> fresh (dom (s_nodes s)) (s_new s))"

definition values_at :: "'a cells \<Rightarrow> ptr list \<Rightarrow> 'a list" where
  "values_at c as = map (\<lambda>a. value_f (the (c a))) as"

text \<open>Single-threaded drivers: push the values in order, then pop \<open>k\<close> times.\<close>

fun stack_push_all :: "'a value_type \<Rightarrow> 'a list \<Rightarrow> 'a stack \<Rightarrow> (unit, 'a stack) outcome" where
  "stack_push_all T [] s = Return () s"
| "stack_push_all T (v # vs) s =
     (case stack_push T v s of
        Return u s' \<Rightarrow> stack_push_all T vs s'
      | Throw e s' \<Rightarrow> Throw e s'
      | Undefined \<Rightarrow> Undefined)"

fun stack_pop_n :: "'a value_type \<Rightarrow> nat \<Rightarrow> 'a stack \<Rightarrow> ('a option list, 'a stack) outcome" where
  "stack_pop_n T 0 s = Return [] s"
| "stack_pop_n T (Suc k) s =
     (case stack_pop T s of
        Return r s' \<Rightarrow>
          (case stack_pop_n T k s' of
             Return rs s'' \<Rightarrow> Return (r # rs) s''
           | Throw e s'' \<Rightarrow> Throw e s''
           | Undefined \<Rightarrow> Undefined)
      | Throw e s' \<Rightarrow> Throw e s'
      | Undefined \<Rightarrow> Undefined)"

text \<open>The value type of the tests: an identifier whose copies and moves never raise.\<close>

definition plain :: "'a \<Rightarrow> 'a value_type" where
  "plain d = \<lparr>T_default = d, T_copy = Some, T_move = Some\<rparr>"

section \<open>The queue (mu/lf/queue.h)\<close>

text \<open>
  The queue of the first revision in the sources: raw node pointers handled with
  \<open>untag\<close>, \<open>get_tag\<close> and \<open>tag\<close> of mu/lf/tag.h. Its free list \<open>free_\<close> (here
  \<open>q_free_f\<close>) is declared \<open>stack<node*>\<close>: the public stack of mu/lf/stack.h at the
  value type \<open>node*\<close>, which stores the pointer words as values in nodes of its own
  and is default-constructed. The queue's nodes live in a heap of their own, with the
  allocator that serves them.
\<close>

record 'a queue =
  q_nodes :: "'a cells"
  q_new :: allocator
  capacity_f :: "64 word"
  head_f :: ptr
  tail_f :: ptr
  q_free_f :: "ptr stack"

text \<open>The value type \<open>node*\<close> of the free list: the default is null, no copy raises.\<close>

definition node_ptr :: "ptr value_type" where
  "node_ptr = \<lparr>T_default = 0, T_copy = Some, T_move = Some\<rparr>"

definition queue_empty :: "'a queue \<Rightarrow> bool" where
  "queue_empty q = (head_f q = tail_f q)"

definition capacity :: "'a queue \<Rightarrow> 64 word" where
  "capacity q = capacity_f q"

text \<open>
  The loop of \<open>destroy\<close>; it need not end on an ill-formed free list, so not returning
  is \<open>None\<close>. \<open>destroy\<close> is \<open>noexcept\<close>: an exception ends the program, which is
  undefined here.
\<close>

partial_function (option) queue_destroy_loop :: "'a queue \<Rightarrow> (unit, 'a queue) outcome option" where
  "queue_destroy_loop q =
     (if stack_empty (q_free_f q) then Some (Return () q)
      else
        case stack_pop node_ptr (q_free_f q) of
          Undefined \<Rightarrow> Some Undefined
        | Throw e s \<Rightarrow> Some Undefined
        | Return None s \<Rightarrow> Some Undefined
        | Return (Some n) s \<Rightarrow>
            (case delete (q_nodes q) (untag n) of
               None \<Rightarrow> Some Undefined
             | Some c \<Rightarrow> queue_destroy_loop (q\<lparr>q_free_f := s, q_nodes := c\<rparr>)))"

definition queue_destroy :: "'a queue \<Rightarrow> (unit, 'a queue) outcome option" where
  "queue_destroy q = (if \<not> queue_empty q then Some Undefined else queue_destroy_loop q)"

definition alloc_node :: "'a value_type \<Rightarrow> 'a queue \<Rightarrow> (ptr, 'a queue) outcome" where
  "alloc_node T q =
     (case stack_pop node_ptr (q_free_f q) of
        Undefined \<Rightarrow> Undefined
      | Throw e s \<Rightarrow> Throw e (q\<lparr>q_free_f := s\<rparr>)
      | Return (Some n) s \<Rightarrow> Return n (q\<lparr>q_free_f := s\<rparr>)
      | Return None s \<Rightarrow>
          (case new (q_new q) of
             (None, rest) \<Rightarrow> Throw bad_alloc (q\<lparr>q_free_f := s, q_new := rest\<rparr>)
           | (Some a, rest) \<Rightarrow>
               Return a
                 (q\<lparr>q_free_f := s, q_new := rest,
                    q_nodes := (q_nodes q)(a \<mapsto> \<lparr>value_f = T_default T, next_f = 0\<rparr>),
                    capacity_f := capacity_f q + 1\<rparr>)))"

definition free_node :: "ptr \<Rightarrow> 'a queue \<Rightarrow> (unit, 'a queue) outcome" where
  "free_node e q =
     (if untag e = 0 then Undefined
      else
        case stack_push node_ptr e (q_free_f q) of
          Return u s \<Rightarrow> Return () (q\<lparr>q_free_f := s\<rparr>)
        | Throw ex s \<Rightarrow> Throw ex (q\<lparr>q_free_f := s\<rparr>)
        | Undefined \<Rightarrow> Undefined)"

text \<open>
  The loop of \<open>enqueue\<close>. It returns the snapshot \<open>tail\<close> with which it left the loop.
  On a cyclic chain it helps the tail along for ever: not returning is \<open>None\<close>.
\<close>

partial_function (option) enqueue_loop :: "ptr \<Rightarrow> 'a queue \<Rightarrow> (ptr, 'a queue) outcome option" where
  "enqueue_loop n q =
     (let tail = tail_f q in
      case q_nodes q (untag tail) of
        None \<Rightarrow> Some Undefined
      | Some tn \<Rightarrow>
          let next = next_f tn in
          if tail \<noteq> tail_f q then enqueue_loop n q
          else if untag next = 0 then
            (let tagged_node = tag n (get_tag next + 1) in
             if fst (compare_set_strong (next_f tn) next tagged_node)
             then Some (Return tail
                    (q\<lparr>q_nodes := (q_nodes q)(untag tail \<mapsto>
                         tn\<lparr>next_f := snd (compare_set_strong (next_f tn) next tagged_node)\<rparr>)\<rparr>))
             else enqueue_loop n q)
          else
            enqueue_loop n
              (q\<lparr>tail_f := snd (compare_set_strong (tail_f q) tail (tag next (get_tag tail + 1)))\<rparr>))"

definition enqueue :: "ptr \<Rightarrow> 'a queue \<Rightarrow> (unit, 'a queue) outcome option" where
  "enqueue n q =
     (case q_nodes q (untag n) of
        None \<Rightarrow> Some Undefined
      | Some nn \<Rightarrow>
          (case enqueue_loop n (q\<lparr>q_nodes := (q_nodes q)(untag n \<mapsto> nn\<lparr>next_f := 0\<rparr>)\<rparr>) of
             None \<Rightarrow> None
           | Some Undefined \<Rightarrow> Some Undefined
           | Some (Throw e q') \<Rightarrow> Some Undefined
           | Some (Return tail q') \<Rightarrow>
               Some (Return ()
                 (q'\<lparr>tail_f := snd (compare_set_strong (tail_f q') tail (tag n (get_tag tail + 1)))\<rparr>))))"

definition queue_push :: "'a value_type \<Rightarrow> 'a \<Rightarrow> 'a queue \<Rightarrow> (unit, 'a queue) outcome option" where
  "queue_push T v q =
     (case alloc_node T q of
        Undefined \<Rightarrow> Some Undefined
      | Throw e q1 \<Rightarrow> Some (Throw e q1)
      | Return n q1 \<Rightarrow>
          (case q_nodes q1 (untag n) of
             None \<Rightarrow> Some Undefined
           | Some nn \<Rightarrow>
               (case T_copy T v of
                  None \<Rightarrow>
                    (case free_node n q1 of
                       Return u q2 \<Rightarrow> Some (Throw user_exception q2)
                     | Throw e q2 \<Rightarrow> Some (Throw e q2)
                     | Undefined \<Rightarrow> Some Undefined)
                | Some v' \<Rightarrow>
                    enqueue n (q1\<lparr>q_nodes := (q_nodes q1)(untag n \<mapsto> nn\<lparr>value_f := v'\<rparr>)\<rparr>))))"

text \<open>\<open>emplace\<close>: the handler deletes the pointer \<open>n\<close> as \<open>alloc_node\<close> returned it.\<close>

definition queue_emplace :: "'a value_type \<Rightarrow> 'a \<Rightarrow> 'a queue \<Rightarrow> (unit, 'a queue) outcome option" where
  "queue_emplace T v q =
     (case alloc_node T q of
        Undefined \<Rightarrow> Some Undefined
      | Throw e q1 \<Rightarrow> Some (Throw e q1)
      | Return n q1 \<Rightarrow>
          (case q_nodes q1 (untag n) of
             None \<Rightarrow> Some Undefined
           | Some nn \<Rightarrow>
               (case T_move T v of
                  None \<Rightarrow>
                    (case delete (q_nodes q1) n of
                       None \<Rightarrow> Some Undefined
                     | Some c \<Rightarrow> Some (Throw user_exception (q1\<lparr>q_nodes := c\<rparr>)))
                | Some v' \<Rightarrow>
                    enqueue n (q1\<lparr>q_nodes := (q_nodes q1)(untag n \<mapsto> nn\<lparr>value_f := v'\<rparr>)\<rparr>))))"

text \<open>
  \<open>dequeue\<close>: the result is the value assigned to the output, \<open>None\<close> for \<open>false\<close>.
  After helping the tail along, head and tail differ, so the loop ends.
\<close>

function dequeue :: "'a value_type \<Rightarrow> 'a queue \<Rightarrow> ('a option, 'a queue) outcome" where
  "dequeue T q =
     (let h = head_f q; t = tail_f q in
      case q_nodes q (untag h) of
        None \<Rightarrow> Undefined
      | Some hn \<Rightarrow>
          let n = next_f hn in
          if h \<noteq> head_f q then dequeue T q
          else if h = t then
            (if untag n = 0 then Return None q
             else dequeue T
                    (q\<lparr>tail_f := snd (compare_set_strong (tail_f q) t (tag n (get_tag t + 1)))\<rparr>))
          else
            (case q_nodes q (untag n) of
               None \<Rightarrow> Undefined
             | Some nn \<Rightarrow>
                 (case T_copy T (value_f nn) of
                    None \<Rightarrow> Throw user_exception q
                  | Some v \<Rightarrow>
                      if \<not> fst (compare_set_strong (head_f q) h (tag n (get_tag h + 1)))
                      then dequeue T q
                      else
                        (case free_node h
                                (q\<lparr>head_f :=
                                     snd (compare_set_strong (head_f q) h (tag n (get_tag h + 1)))\<rparr>) of
                           Return u q' \<Rightarrow> Return (Some v) q'
                         | Throw e q' \<Rightarrow> Throw e q'
                         | Undefined \<Rightarrow> Undefined))))"
  by pat_completeness auto

termination
proof (relation "measure (\<lambda>(T, q). if head_f q = tail_f q then 1 else 0)")
  show "wf (measure (\<lambda>(T :: 'a value_type, q :: 'a queue). if head_f q = tail_f q then 1 else 0))"
    by simp
next
  fix T :: "'a value_type" and q :: "'a queue" and x xa
  assume "x = head_f q" "xa = tail_f q" "x \<noteq> head_f q"
  then show "((T, q), T, q) \<in> measure (\<lambda>(T, q). if head_f q = tail_f q then 1 else 0)"
    by simp
next
  fix T :: "'a value_type" and q :: "'a queue" and x xa x2 xb
  assume a: "x = head_f q" "xa = tail_f q" "x = xa" "xb = next_f x2"
  have "tag xb (get_tag xa + 1) \<noteq> xa"
  proof
    assume e: "tag xb (get_tag xa + 1) = xa"
    have "get_tag (tag xb (get_tag xa + 1)) = get_tag xa + 1"
      unfolding tag_def get_tag_def untag_def TAG_MASK_def TAG_SHIFT_COUNT_def
      by (rule bit_word_eqI) (auto simp: bit_simps)
    with e show False by simp
  qed
  with a show "((T, q\<lparr>tail_f := snd (compare_set_strong (tail_f q) xa (tag xb (get_tag xa + 1)))\<rparr>), T, q)
       \<in> measure (\<lambda>(T, q). if head_f q = tail_f q then 1 else 0)"
    by (simp add: compare_set_strong_def)
next
  fix T :: "'a value_type" and q :: "'a queue" and x xa x2 xb
  assume "x = head_f q" "\<not> fst (compare_set_strong (head_f q) x (tag xb (get_tag x + 1)))"
  then show "((T, q), T, q) \<in> measure (\<lambda>(T, q). if head_f q = tail_f q then 1 else 0)"
    by (simp add: compare_set_strong_def)
qed

definition queue_pop :: "'a value_type \<Rightarrow> 'a queue \<Rightarrow> ('a option, 'a queue) outcome" where
  "queue_pop T q = dequeue T q"

text \<open>
  The loop of the constructor, with the number of rounds left:
  \<open>free_.push(new node())\<close>.
\<close>

fun queue_fill :: "'a value_type \<Rightarrow> nat \<Rightarrow> 'a queue \<Rightarrow> (unit, 'a queue) outcome" where
  "queue_fill T 0 q = Return () q"
| "queue_fill T (Suc k) q =
     (case new (q_new q) of
        (None, rest) \<Rightarrow> Throw bad_alloc (q\<lparr>q_new := rest\<rparr>)
      | (Some a, rest) \<Rightarrow>
          let q1 = q\<lparr>q_new := rest,
                     q_nodes := (q_nodes q)(a \<mapsto> \<lparr>value_f = T_default T, next_f = 0\<rparr>)\<rparr>
          in case stack_push node_ptr a (q_free_f q1) of
               Return u s \<Rightarrow> queue_fill T k (q1\<lparr>q_free_f := s\<rparr>)
             | Throw e s \<Rightarrow> Throw e (q1\<lparr>q_free_f := s\<rparr>)
             | Undefined \<Rightarrow> Undefined)"

text \<open>
  The constructor, given the allocator of the queue's nodes and the allocator of the
  free list's nodes: the member \<open>free_\<close> is default-constructed, the body fills the
  free list and takes the sentinel with \<open>alloc_node\<close>; the handler calls \<open>destroy\<close>
  and rethrows; the three assertions close the body.
\<close>

definition queue_ctor ::
  "'a value_type \<Rightarrow> 64 word \<Rightarrow> allocator \<Rightarrow> allocator \<Rightarrow> (unit, 'a queue) outcome option" where
  "queue_ctor T initial_capacity_count qal sal =
     (case stack_ctor node_ptr DEFAULT_INITIAL_CAPACITY sal of
        Undefined \<Rightarrow> Some Undefined
      | Throw e s \<Rightarrow>
          Some (Throw e \<lparr>q_nodes = Map.empty, q_new = qal, capacity_f = initial_capacity_count,
                         head_f = 0, tail_f = 0, q_free_f = s\<rparr>)
      | Return u s \<Rightarrow>
          let q0 = \<lparr>q_nodes = Map.empty, q_new = qal, capacity_f = initial_capacity_count,
                    head_f = 0, tail_f = 0, q_free_f = s\<rparr>
          in case (case queue_fill T (unat initial_capacity_count) q0 of
                     Return u q1 \<Rightarrow>
                       (case alloc_node T q1 of
                          Return n q2 \<Rightarrow> Return () (q2\<lparr>head_f := n, tail_f := n\<rparr>)
                        | Throw e q2 \<Rightarrow> Throw e q2
                        | Undefined \<Rightarrow> Undefined)
                   | Throw e q1 \<Rightarrow> Throw e q1
                   | Undefined \<Rightarrow> Undefined) of
               Undefined \<Rightarrow> Some Undefined
             | Throw e q1 \<Rightarrow>
                 (case queue_destroy q1 of
                    None \<Rightarrow> None
                  | Some (Return u q2) \<Rightarrow> Some (Throw e q2)
                  | Some (Throw e' q2) \<Rightarrow> Some Undefined
                  | Some Undefined \<Rightarrow> Some Undefined)
             | Return u q2 \<Rightarrow>
                 (case q_nodes q2 (untag (head_f q2)) of
                    None \<Rightarrow> Some Undefined
                  | Some hn \<Rightarrow>
                      (case q_nodes q2 (untag (tail_f q2)) of
                         None \<Rightarrow> Some Undefined
                       | Some tn \<Rightarrow>
                           if next_f hn = 0 \<and> next_f tn = 0 \<and>
                              untag (head_f q2) = untag (tail_f q2)
                           then Some (Return () q2)
                           else Some Undefined)))"

text \<open>Single-threaded use: a list of pushes and pops, with the results of the pops.\<close>

datatype 'a op = Push 'a | Pop

fun queue_run ::
  "'a value_type \<Rightarrow> 'a op list \<Rightarrow> 'a queue \<Rightarrow> ('a option list, 'a queue) outcome option" where
  "queue_run T [] q = Some (Return [] q)"
| "queue_run T (Push v # ops) q =
     (case queue_push T v q of
        None \<Rightarrow> None
      | Some (Return u q') \<Rightarrow> queue_run T ops q'
      | Some (Throw e q') \<Rightarrow> Some (Throw e q')
      | Some Undefined \<Rightarrow> Some Undefined)"
| "queue_run T (Pop # ops) q =
     (case queue_pop T q of
        Return r q' \<Rightarrow>
          (case queue_run T ops q' of
             None \<Rightarrow> None
           | Some (Return rs q'') \<Rightarrow> Some (Return (r # rs) q'')
           | Some (Throw e q'') \<Rightarrow> Some (Throw e q'')
           | Some Undefined \<Rightarrow> Some Undefined)
      | Throw e q' \<Rightarrow> Some (Throw e q')
      | Undefined \<Rightarrow> Some Undefined)"

text \<open>
  The FIFO queue of the specification, on lists of values: the results of the pops
  and the values left.
\<close>

fun fifo_run :: "'a op list \<Rightarrow> 'a list \<Rightarrow> 'a option list \<times> 'a list" where
  "fifo_run [] xs = ([], xs)"
| "fifo_run (Push v # ops) xs = fifo_run ops (xs @ [v])"
| "fifo_run (Pop # ops) [] = (None # fst (fifo_run ops []), snd (fifo_run ops []))"
| "fifo_run (Pop # ops) (x # xs) = (Some x # fst (fifo_run ops xs), snd (fifo_run ops xs))"

section \<open>The invariant of the queue\<close>

text \<open>
  The free list holds the pointer words \<open>pool\<close>, the top first.
\<close>

definition pool_rep :: "ptr stack \<Rightarrow> ptr list \<Rightarrow> bool" where
  "pool_rep s pool = (\<exists>fs ss. stack_inv s fs ss \<and> values_at (s_nodes s) ss = pool)"

text \<open>
  The nodes of the queue: \<open>head_\<close> links the nodes \<open>chain\<close>, the sentinel first;
  \<open>tail_\<close> is the last of them, with the tag of the head plus the number of payload
  nodes; the words \<open>pool\<close> point to the other nodes, each once; the allocator is fresh;
  \<open>capacity_\<close> counts the nodes.
\<close>

definition nodes_inv :: "'a queue \<Rightarrow> ptr list \<Rightarrow> ptr list \<Rightarrow> bool" where
  "nodes_inv q chain pool =
     (chain \<noteq> [] \<and> path (q_nodes q) (head_f q) chain \<and>
      tail_f q = tag (last chain) (get_tag (head_f q) + of_nat (length chain - 1)) \<and>
      distinct (chain @ map untag pool) \<and> 0 \<notin> set (map untag pool) \<and>
      dom (q_nodes q) = set chain \<union> set (map untag pool) \<and>
      fresh (dom (q_nodes q)) (q_new q) \<and>
      unat (capacity_f q) = length chain + length pool)"

definition queue_inv :: "'a queue \<Rightarrow> ptr list \<Rightarrow> ptr list \<Rightarrow> bool" where
  "queue_inv q chain pool = (nodes_inv q chain pool \<and> pool_rep (q_free_f q) pool)"

text \<open>The payload of the queue: the values of the nodes after the sentinel.\<close>

definition payload :: "'a queue \<Rightarrow> ptr list \<Rightarrow> 'a list" where
  "payload q chain = values_at (q_nodes q) (tl chain)"

text \<open>The number of pushes and of pops in a list of operations.\<close>

definition pushes :: "'a op list \<Rightarrow> nat" where
  "pushes ops = length (filter (\<lambda>x. x \<noteq> Pop) ops)"

definition pops :: "'a op list \<Rightarrow> nat" where
  "pops ops = length (filter (\<lambda>x. x = Pop) ops)"

section \<open>The invariant while the queue is constructed\<close>

text \<open>
  While the constructor fills the free list: the words \<open>pool\<close> on the free list are
  the addresses of the nodes allocated so far, each a fresh node; head and tail are
  still null.
\<close>

definition fill_inv :: "'a value_type \<Rightarrow> 'a queue \<Rightarrow> ptr list \<Rightarrow> bool" where
  "fill_inv T q pool =
     (pool_rep (q_free_f q) pool \<and> distinct pool \<and> 0 \<notin> set pool \<and>
      (\<forall>p\<in>set pool. untag p = p \<and> q_nodes q p = Some \<lparr>value_f = T_default T, next_f = 0\<rparr>) \<and>
      dom (q_nodes q) = set pool \<and> fresh (dom (q_nodes q)) (q_new q) \<and>
      head_f q = 0 \<and> tail_f q = 0)"

section \<open>A queue of capacity one\<close>

text \<open>
  The allocator of the free list's nodes refuses the first allocation, which the
  constructor of the free list swallows, and serves the addresses 1024 and 2048 next.
\<close>

definition ex_sal :: allocator where
  "ex_sal = [None, Some 1024, Some 2048]"

text \<open>
  The queue that \<open>queue(1)\<close> builds from the node addresses 16 and 32: the one
  pre-allocated node 16 is the sentinel, 32 is not yet allocated.
\<close>

definition ex_q0 :: "nat queue" where
  "ex_q0 =
     \<lparr>q_nodes = [16 \<mapsto> \<lparr>value_f = 0, next_f = 0\<rparr>], q_new = [Some 32],
      capacity_f = 1, head_f = 16, tail_f = 16,
      q_free_f = \<lparr>s_nodes = [1024 \<mapsto> \<lparr>value_f = 0, next_f = 0\<rparr>], s_new = [Some 2048],
                  free_f = 0, stack_f = tag 0 1\<rparr>\<rparr>"

text \<open>The same queue after \<open>push(7)\<close>.\<close>

definition ex_q1 :: "nat queue" where
  "ex_q1 =
     \<lparr>q_nodes = [32 \<mapsto> \<lparr>value_f = 7, next_f = 0\<rparr>, 16 \<mapsto> \<lparr>value_f = 0, next_f = tag 32 1\<rparr>],
      q_new = [], capacity_f = 2, head_f = 16, tail_f = tag 32 1,
      q_free_f = \<lparr>s_nodes = [1024 \<mapsto> \<lparr>value_f = 0, next_f = 0\<rparr>], s_new = [Some 2048],
                  free_f = 0, stack_f = tag 0 1\<rparr>\<rparr>"

text \<open>
  The queue that \<open>queue(1)\<close> builds when both allocators can serve three nodes more:
  the queue's 32, 48 and 64, and the free list's 2048, 3072 and 4096.
\<close>

definition ex_sal3 :: allocator where
  "ex_sal3 = [None, Some 1024, Some 2048, Some 3072, Some 4096]"

definition ex_q3 :: "nat queue" where
  "ex_q3 =
     \<lparr>q_nodes = [16 \<mapsto> \<lparr>value_f = 0, next_f = 0\<rparr>], q_new = [Some 32, Some 48, Some 64],
      capacity_f = 1, head_f = 16, tail_f = 16,
      q_free_f = \<lparr>s_nodes = [1024 \<mapsto> \<lparr>value_f = 0, next_f = 0\<rparr>],
                  s_new = [Some 2048, Some 3072, Some 4096], free_f = 0, stack_f = tag 0 1\<rparr>\<rparr>"

text \<open>A value type whose move assignment raises.\<close>

definition throwing_move :: "nat value_type" where
  "throwing_move = \<lparr>T_default = 0, T_copy = Some, T_move = (\<lambda>v. None)\<rparr>"

chapter \<open>Properties\<close>

section \<open>The binary heap: the sanity scenario\<close>

lemma top_pop_all_numeral:
  "top_pop_all (numeral k) h =
     (case adt_top h of
        None \<Rightarrow> None
      | Some t \<Rightarrow>
          (case adt_pop h of
             None \<Rightarrow> None
           | Some h' \<Rightarrow> map_option ((#) t) (top_pop_all (pred_numeral k) h')))"
  by (simp add: numeral_eq_Suc)

text \<open>
  C9: pushing 15, 14, ..., 1, 0 onto an empty binary min-heap and then sixteen times
  reading \<open>top\<close> and popping returns 0, 1, ..., 15 in increasing order. The elements
  are \<open>size_t\<close> values, as in the heap test.
\<close>

theorem heap_sanity_descending:
  "top_pop_all 16
     (push_all \<lparr>heap_f = []\<rparr> [15, 14, 13, 12, 11, 10, 9, 8, 7, 6, 5, 4, 3, 2, 1, 0 :: 64 word])
     = Some [0, 1, 2, 3, 4, 5, 6, 7, 8, 9, 10, 11, 12, 13, 14, 15]"
  by (simp add: adt_push_def adt_pop_def adt_top_def heap_push_def bubble_last_def
      parent_index_def swap_at_def heap_top_def heap_pop_def sift_first_def
      left_child_index_def right_child_index_def top_pop_all_numeral)

section \<open>Tagged pointers and the intrusive stack\<close>

subsection \<open>Tag arithmetic\<close>

lemma untag_take_bit: "untag p = take_bit 48 p"
  unfolding untag_def TAG_MASK_def TAG_SHIFT_COUNT_def
  by (rule bit_word_eqI) (auto simp: bit_simps)

lemma MASK_TAG_MASK: "MASK = TAG_MASK"
  unfolding MASK_def TAG_MASK_def TAG_SHIFT_COUNT_def by (simp add: mask_eq_exp_minus_1)

lemma arch_untag_untag [simp]: "arch_untag p = untag p"
  by (simp add: arch_untag_def untag_def MASK_TAG_MASK)

lemma untag_untag [simp]: "untag (untag p) = untag p"
  by (simp add: untag_take_bit)

lemma untag_tag [simp]: "untag (tag p t) = untag p"
  unfolding tag_def untag_take_bit TAG_SHIFT_COUNT_def
  by (rule bit_word_eqI) (auto simp: bit_simps)

lemma get_tag_tag [simp]: "get_tag (tag p t) = t"
  unfolding tag_def get_tag_def untag_take_bit TAG_SHIFT_COUNT_def
  by (rule bit_word_eqI) (auto simp: bit_simps)

lemma tag_untag [simp]: "tag (untag p) t = tag p t"
  by (simp add: tag_def)

lemma tag_get_tag [simp]: "tag p (get_tag p) = p"
  unfolding tag_def get_tag_def untag_take_bit TAG_SHIFT_COUNT_def
  by (rule bit_word_eqI) (auto simp: bit_simps)

lemma ptr_eq_iff: "p = q \<longleftrightarrow> untag p = untag q \<and> get_tag p = get_tag q"
proof
  assume "untag p = untag q \<and> get_tag p = get_tag q"
  then have "tag (untag p) (get_tag p) = tag (untag q) (get_tag q)" by simp
  then show "p = q" by simp
qed simp

lemma untag_0 [simp]: "untag 0 = 0"
  by (simp add: untag_take_bit)

lemma get_tag_0 [simp]: "get_tag 0 = 0"
  by (simp add: get_tag_def)

lemma get_tag_untag [simp]: "get_tag (untag p) = 0"
  unfolding get_tag_def untag_take_bit TAG_SHIFT_COUNT_def
  by (simp add: drop_bit_take_bit)

lemma untag_inctag [simp]: "untag (inctag p) = untag p"
  by (simp add: inctag_def)

lemma get_tag_inctag [simp]: "get_tag (inctag p) = get_tag p + 1"
  by (simp add: inctag_def)

lemma arch_tag_tag: "arch_tag p t = tag p (ucast t)"
  unfolding arch_tag_def arch_untag_untag tag_def untag_take_bit TAG_SHIFT_COUNT_def
  by (rule bit_word_eqI) (auto simp: bit_simps)

lemma ucast_arch_get_tag: "ucast (arch_get_tag p) = get_tag p"
  by (simp add: arch_get_tag_def get_tag_def TAG_SHIFT_COUNT_def)

lemma set_tag_tag: "set_tag p q = tag p (get_tag q)"
  by (simp add: set_tag_def arch_tag_tag ucast_arch_get_tag)

lemma ucast_succ_down: "(ucast (x + 1 :: 64 word) :: 16 word) = ucast x + 1"
proof -
  have dvd: "(2 :: int) ^ 16 dvd 2 ^ 64"
    by (rule le_imp_power_dvd) simp
  have "take_bit 16 (uint (x + 1)) = take_bit 16 (uint x + 1)"
    unfolding uint_word_ariths take_bit_eq_mod
    using mod_mod_cancel [OF dvd, of "uint x + uint (1 :: 64 word)"] by simp
  then have "(word_of_int (uint (x + 1)) :: 16 word) = word_of_int (uint x + 1)"
    by (simp only: word_of_int_eq_iff len_of_numeral_defs) simp
  then show ?thesis
    unfolding ucast_eq by (simp only: wi_hom_syms word_of_int_1)
qed

lemma increment_tag_inctag [simp]: "increment_tag p = inctag p"
  by (simp add: increment_tag_def inctag_def arch_tag_tag ucast_succ_down ucast_arch_get_tag)

lemma tag_neq_succ: "tag n (get_tag t + 1) \<noteq> t"
proof
  assume "tag n (get_tag t + 1) = t"
  then have "get_tag (tag n (get_tag t + 1)) = get_tag t" by simp
  then show False by simp
qed

text \<open>Evaluation of the tag operations on numerals.\<close>

lemmas tag_eval =
  untag_take_bit tag_def inctag_def get_tag_def TAG_SHIFT_COUNT_def

subsection \<open>The intrusive stack without interference\<close>

lemma impl_push_eq:
  "impl_push c head e =
     (case c (untag e) of
        None \<Rightarrow> None
      | Some en \<Rightarrow> Some (c(untag e \<mapsto> en\<lparr>next_f := head\<rparr>), inctag e))"
  by (subst impl_push.simps) (simp add: compare_set_strong_def Let_def split: option.splits)

lemma impl_pop_eq:
  "impl_pop c head =
     (if untag head = 0 then Some (None, head)
      else case c (untag head) of
             None \<Rightarrow> None
           | Some hn \<Rightarrow> Some (Some head, inctag (next_f hn)))"
  by (subst impl_pop.simps) (simp add: compare_set_strong_def Let_def split: option.splits)

declare impl_push.simps [simp del] impl_pop.simps [simp del] stack_destroy_loop.simps [simp del]

section \<open>The public stack\<close>

subsection \<open>Paths and allocators\<close>

lemma path_upd:
  "a \<notin> set as \<Longrightarrow> path (c(a := x)) p as = path c p as"
  by (induction as arbitrary: p) (auto split: option.splits)

lemma path_in_dom: "path c p as \<Longrightarrow> set as \<subseteq> dom c"
  by (induction as arbitrary: p) (auto split: option.splits)

lemma path_retag: "untag p = untag q \<Longrightarrow> path c p as = path c q as"
  by (cases as) auto

lemma values_at_upd:
  "a \<notin> set as \<Longrightarrow> values_at (c(a := x)) as = values_at c as"
  by (auto simp: values_at_def)

lemma fresh_antimono: "fresh D al \<Longrightarrow> D' \<subseteq> D \<Longrightarrow> fresh D' al"
proof (induction D al arbitrary: D' rule: fresh.induct)
  case (3 D a rs)
  from "3.prems" have f: "fresh (insert a D) rs" and a: "a \<noteq> 0" "untag a = a" "a \<notin> D"
    by simp_all
  from "3.prems" have "insert a D' \<subseteq> insert a D" by auto
  with f have "fresh (insert a D') rs" by (rule "3.IH")
  with a "3.prems"(2) show ?case by auto
qed simp_all

lemma fresh_Some:
  "fresh D (Some a # rs) \<Longrightarrow> a \<noteq> 0 \<and> untag a = a \<and> a \<notin> D \<and> fresh (insert a D) rs"
  by simp

lemma available_0 [simp]: "available 0 al"
  by (simp add: available_def)

lemma available_Suc:
  "available (Suc k) al \<longleftrightarrow> (\<exists>a rs. al = Some a # rs \<and> available k rs)"
proof (cases al)
  case (Cons x rs)
  then show ?thesis by (cases x) (auto simp: available_def)
qed (simp add: available_def)

lemma not_available_Suc:
  "\<not> available (Suc k) al \<longleftrightarrow>
     (al = [] \<or> (\<exists>rs. al = None # rs) \<or> (\<exists>a rs. al = Some a # rs \<and> \<not> available k rs))"
proof (cases al)
  case (Cons x rs)
  then show ?thesis by (cases x) (auto simp: available_def)
qed (simp add: available_def)

lemma available_mono: "available k al \<Longrightarrow> j \<le> k \<Longrightarrow> available j al"
proof -
  assume a: "available k al" and j: "j \<le> k"
  from j have "set (take j al) \<subseteq> set (take k al)"
    by (rule set_take_subset_set_take)
  with a j show ?thesis
    by (auto simp: available_def)
qed

subsection \<open>Construction and destruction of the public stack\<close>

lemma stack_destroy_loop_drains:
  "path (s_nodes s) (free_f s) fs \<Longrightarrow> distinct fs \<Longrightarrow>
   \<exists>s'. stack_destroy_loop s = Some s' \<and>
        s_nodes s' = (\<lambda>a. if a \<in> set fs then None else s_nodes s a) \<and>
        untag (free_f s') = 0 \<and> stack_f s' = stack_f s \<and> s_new s' = s_new s"
proof (induction fs arbitrary: s)
  case Nil
  then show ?case
    by (subst stack_destroy_loop.simps) (simp add: impl_pop_eq)
next
  case (Cons a fs)
  from Cons.prems obtain n where
    a: "untag (free_f s) = a" "a \<noteq> 0" "s_nodes s a = Some n"
    and p: "path (s_nodes s) (next_f n) fs" and d: "a \<notin> set fs" "distinct fs"
    by (auto split: option.splits)
  let ?s = "s\<lparr>s_nodes := (s_nodes s)(a := None), free_f := inctag (next_f n)\<rparr>"
  from p d have "path (s_nodes ?s) (free_f ?s) fs"
    by (simp add: path_upd path_retag [of "inctag (next_f n)" "next_f n"])
  from Cons.IH [OF this d(2)] obtain s' where
    s': "stack_destroy_loop ?s = Some s'"
      "s_nodes s' = (\<lambda>x. if x \<in> set fs then None else s_nodes ?s x)"
      "untag (free_f s') = 0" "stack_f s' = stack_f ?s" "s_new s' = s_new ?s"
    by blast
  have "stack_destroy_loop s = stack_destroy_loop ?s"
    using a by (subst stack_destroy_loop.simps) (simp add: impl_pop_eq delete_def dom_def)
  with s' show ?case
    by (auto simp: fun_eq_iff)
qed

lemma stack_fill_available:
  "stack_inv s fs [] \<Longrightarrow> available k (s_new s) \<Longrightarrow>
   \<exists>s' fs'. stack_fill T k s = Return () s' \<and> stack_inv s' (fs' @ fs) [] \<and> length fs' = k \<and>
     dom (s_nodes s') = dom (s_nodes s) \<union> set fs' \<and> stack_f s' = stack_f s \<and>
     s_new s' = drop k (s_new s)"
proof (induction k arbitrary: s fs)
  case 0
  then show ?case by simp
next
  case (Suc k)
  from Suc.prems(2) obtain a rs where al: "s_new s = Some a # rs" "available k rs"
    by (auto simp: available_Suc)
  from Suc.prems(1) have inv:
    "path (s_nodes s) (free_f s) fs" "untag (stack_f s) = 0" "distinct fs"
    "fresh (dom (s_nodes s)) (Some a # rs)"
    by (simp_all add: stack_inv_def al)
  then have a: "a \<noteq> 0" "untag a = a" "a \<notin> dom (s_nodes s)" "fresh (insert a (dom (s_nodes s))) rs"
    by simp_all
  from inv(1) a(3) have nin: "a \<notin> set fs"
    using path_in_dom by blast
  let ?c = "(s_nodes s)(a \<mapsto> \<lparr>value_f = T_default T, next_f = free_f s\<rparr>)"
  let ?s = "s\<lparr>s_new := rs, s_nodes := ?c, free_f := inctag a\<rparr>"
  have step: "stack_fill T (Suc k) s = stack_fill T k ?s"
    using a by (simp add: al impl_push_eq)
  have "stack_inv ?s (a # fs) []"
    using inv a nin by (simp add: stack_inv_def path_upd)
  moreover have "available k (s_new ?s)"
    using al by simp
  ultimately obtain s' fs' where
    s': "stack_fill T k ?s = Return () s'" "stack_inv s' (fs' @ a # fs) []" "length fs' = k"
      "dom (s_nodes s') = dom (s_nodes ?s) \<union> set fs'" "stack_f s' = stack_f ?s"
      "s_new s' = drop k (s_new ?s)"
    using Suc.IH by blast
  have "stack_fill T (Suc k) s = Return () s' \<and> stack_inv s' ((fs' @ [a]) @ fs) [] \<and>
     length (fs' @ [a]) = Suc k \<and>
     dom (s_nodes s') = dom (s_nodes s) \<union> set (fs' @ [a]) \<and> stack_f s' = stack_f s \<and>
     s_new s' = drop (Suc k) (s_new s)"
    using s' step al by auto
  then show ?case by blast
qed

lemma stack_fill_unavailable:
  "stack_inv s fs [] \<Longrightarrow> \<not> available k (s_new s) \<Longrightarrow>
   \<exists>s' fs'. stack_fill T k s = Throw bad_alloc s' \<and> stack_inv s' (fs' @ fs) [] \<and> length fs' < k \<and>
     dom (s_nodes s') = dom (s_nodes s) \<union> set fs' \<and> stack_f s' = stack_f s"
proof (induction k arbitrary: s fs)
  case 0
  then show ?case by simp
next
  case (Suc k)
  from Suc.prems(1) have inv:
    "path (s_nodes s) (free_f s) fs" "untag (stack_f s) = 0" "distinct fs"
    "fresh (dom (s_nodes s)) (s_new s)"
    by (simp_all add: stack_inv_def)
  from Suc.prems(2) consider
      (empty) "s_new s = []"
    | (fails) rs where "s_new s = None # rs"
    | (later) a rs where "s_new s = Some a # rs" "\<not> available k rs"
    by (auto simp: not_available_Suc)
  then show ?case
  proof cases
    case empty
    then have "stack_fill T (Suc k) s = Throw bad_alloc s \<and> stack_inv s ([] @ fs) [] \<and>
        length ([] :: ptr list) < Suc k \<and> dom (s_nodes s) = dom (s_nodes s) \<union> set []"
      using Suc.prems(1) by simp
    then show ?thesis by blast
  next
    case fails
    let ?s = "s\<lparr>s_new := rs\<rparr>"
    have "stack_fill T (Suc k) s = Throw bad_alloc ?s \<and> stack_inv ?s ([] @ fs) [] \<and>
        length ([] :: ptr list) < Suc k \<and> dom (s_nodes ?s) = dom (s_nodes s) \<union> set [] \<and>
        stack_f ?s = stack_f s"
      using inv fails by (simp add: stack_inv_def)
    then show ?thesis by blast
  next
    case later
    from inv(4) later have a:
      "a \<noteq> 0" "untag a = a" "a \<notin> dom (s_nodes s)" "fresh (insert a (dom (s_nodes s))) rs"
      by simp_all
    from inv(1) a(3) have nin: "a \<notin> set fs"
      using path_in_dom by blast
    let ?c = "(s_nodes s)(a \<mapsto> \<lparr>value_f = T_default T, next_f = free_f s\<rparr>)"
    let ?s = "s\<lparr>s_new := rs, s_nodes := ?c, free_f := inctag a\<rparr>"
    have step: "stack_fill T (Suc k) s = stack_fill T k ?s"
      using a by (simp add: later impl_push_eq)
    have "stack_inv ?s (a # fs) []"
      using inv a nin by (simp add: stack_inv_def path_upd)
    moreover have "\<not> available k (s_new ?s)"
      using later by simp
    ultimately obtain s' fs' where
      s': "stack_fill T k ?s = Throw bad_alloc s'" "stack_inv s' (fs' @ a # fs) []" "length fs' < k"
        "dom (s_nodes s') = dom (s_nodes ?s) \<union> set fs'" "stack_f s' = stack_f ?s"
      using Suc.IH by blast
    have "stack_fill T (Suc k) s = Throw bad_alloc s' \<and> stack_inv s' ((fs' @ [a]) @ fs) [] \<and>
       length (fs' @ [a]) < Suc k \<and>
       dom (s_nodes s') = dom (s_nodes s) \<union> set (fs' @ [a]) \<and> stack_f s' = stack_f s"
      using s' step by auto
    then show ?thesis by blast
  qed
qed

lemma stack_inv_initial:
  "fresh {} al \<Longrightarrow> stack_inv \<lparr>s_nodes = Map.empty, s_new = al, free_f = 0, stack_f = 0\<rparr> [] []"
  by (simp add: stack_inv_def)

lemma stack_ctor_available:
  assumes "fresh {} al" and "available (unat N) al"
  shows "\<exists>s fs. stack_ctor T N al = Return () s \<and> stack_inv s fs [] \<and> length fs = unat N \<and>
           dom (s_nodes s) = set fs \<and> s_new s = drop (unat N) al"
proof -
  let ?s0 = "\<lparr>s_nodes = Map.empty, s_new = al, free_f = 0, stack_f = 0\<rparr> :: 'a stack"
  from assms have "stack_inv ?s0 [] []" "available (unat N) (s_new ?s0)"
    by (simp_all add: stack_inv_initial)
  from stack_fill_available [OF this, of T] obtain s' fs' where
    "stack_fill T (unat N) ?s0 = Return () s'" "stack_inv s' (fs' @ []) []" "length fs' = unat N"
    "dom (s_nodes s') = dom (s_nodes ?s0) \<union> set fs'" "s_new s' = drop (unat N) (s_new ?s0)"
    by blast
  then have "stack_ctor T N al = Return () s' \<and> stack_inv s' fs' [] \<and> length fs' = unat N \<and>
           dom (s_nodes s') = set fs' \<and> s_new s' = drop (unat N) al"
    by (simp add: stack_ctor_def)
  then show ?thesis by blast
qed

lemma stack_ctor_unavailable:
  assumes "fresh {} al" and "\<not> available (unat N) al"
  shows "\<exists>s. stack_ctor T N al = Return () s \<and> stack_inv s [] [] \<and> s_nodes s = Map.empty \<and>
           0 < unat N"
proof -
  let ?s0 = "\<lparr>s_nodes = Map.empty, s_new = al, free_f = 0, stack_f = 0\<rparr> :: 'a stack"
  from assms have "stack_inv ?s0 [] []" "\<not> available (unat N) (s_new ?s0)"
    by (simp_all add: stack_inv_initial)
  from stack_fill_unavailable [OF this, of T] obtain s' fs' where
    s': "stack_fill T (unat N) ?s0 = Throw bad_alloc s'" "stack_inv s' (fs' @ []) []"
    "length fs' < unat N"
    "dom (s_nodes s') = dom (s_nodes ?s0) \<union> set fs'" "stack_f s' = stack_f ?s0"
    by blast
  then have inv: "path (s_nodes s') (free_f s') fs'" "distinct fs'"
    "fresh (dom (s_nodes s')) (s_new s')" "dom (s_nodes s') = set fs'" "stack_f s' = 0"
    by (simp_all add: stack_inv_def)
  from stack_destroy_loop_drains [OF inv(1,2)] obtain s'' where
    s'': "stack_destroy_loop s' = Some s''"
      "s_nodes s'' = (\<lambda>a. if a \<in> set fs' then None else s_nodes s' a)"
      "untag (free_f s'') = 0" "stack_f s'' = stack_f s'" "s_new s'' = s_new s'"
    by blast
  from s''(2) inv(4) have empty: "s_nodes s'' = Map.empty"
    by (auto simp: fun_eq_iff dom_def)
  have "fresh (dom (s_nodes s'')) (s_new s'')"
    using inv(3) s''(5) empty by (auto intro: fresh_antimono)
  with s'' inv(5) empty have "stack_inv s'' [] []"
    by (simp add: stack_inv_def)
  moreover have "stack_ctor T N al = Return () s''"
    using s'(1) s''(1) inv(5)
    by (simp add: stack_ctor_def stack_destroy_def stack_empty_def impl_empty_def)
  ultimately show ?thesis
    using empty s'(3) by auto
qed

subsection \<open>Push and pop of the public stack\<close>

lemma stack_push_spec:
  assumes inv: "stack_inv s fs ss" and cp: "T_copy T v = Some v'"
    and mem: "fs = [] \<Longrightarrow> available (Suc 0) (s_new s)"
  shows "\<exists>s' a. stack_push T v s = Return () s' \<and> stack_inv s' (tl fs) (a # ss) \<and>
           values_at (s_nodes s') (a # ss) = v' # values_at (s_nodes s) ss \<and>
           s_new s' = (if fs = [] then tl (s_new s) else s_new s)"
proof (cases fs)
  case Nil
  with mem obtain a rs where al: "s_new s = Some a # rs"
    by (auto simp: available_Suc)
  from inv Nil al have i: "untag (free_f s) = 0" "path (s_nodes s) (stack_f s) ss" "distinct ss"
    "a \<noteq> 0" "untag a = a" "a \<notin> dom (s_nodes s)" "fresh (insert a (dom (s_nodes s))) rs"
    by (simp_all add: stack_inv_def)
  from i(2,6) have nin: "a \<notin> set ss"
    using path_in_dom by blast
  let ?s = "s\<lparr>s_new := rs,
              s_nodes := (s_nodes s)(a \<mapsto> \<lparr>value_f = v', next_f = stack_f s\<rparr>),
              stack_f := inctag a\<rparr>"
  have "stack_push T v s = Return () ?s"
    using i al cp by (simp add: stack_push_def impl_pop_eq new_node_of_def impl_push_eq)
  moreover have "stack_inv ?s (tl fs) (a # ss)"
    using i nin Nil by (simp add: stack_inv_def path_upd)
  moreover have "values_at (s_nodes ?s) (a # ss) = v' # values_at (s_nodes s) ss"
    using nin by (auto simp: values_at_def)
  ultimately show ?thesis
    using Nil al by (intro exI [of _ ?s] exI [of _ a]) simp
next
  case (Cons f fs')
  from inv Cons obtain fn where i:
    "untag (free_f s) = f" "f \<noteq> 0" "s_nodes s f = Some fn" "path (s_nodes s) (next_f fn) fs'"
    "path (s_nodes s) (stack_f s) ss" "f \<notin> set fs'" "f \<notin> set ss" "distinct fs'" "distinct ss"
    "set fs' \<inter> set ss = {}" "fresh (dom (s_nodes s)) (s_new s)"
    by (auto simp: stack_inv_def split: option.splits)
  let ?s = "s\<lparr>free_f := inctag (next_f fn),
              s_nodes := (s_nodes s)(f \<mapsto> fn\<lparr>value_f := v', next_f := stack_f s\<rparr>),
              stack_f := inctag (free_f s)\<rparr>"
  have "stack_push T v s = Return () ?s"
    using i cp by (simp add: stack_push_def impl_pop_eq impl_push_eq)
  moreover have "stack_inv ?s (tl fs) (f # ss)"
  proof -
    have "dom ((s_nodes s)(f \<mapsto> fn\<lparr>value_f := v', next_f := stack_f s\<rparr>)) = dom (s_nodes s)"
      using i(3) by auto
    then show ?thesis
      using i Cons
      by (simp add: stack_inv_def path_upd path_retag [of "inctag (next_f fn)" "next_f fn"])
  qed
  moreover have "values_at (s_nodes ?s) (f # ss) = v' # values_at (s_nodes s) ss"
    using i(7) by (auto simp: values_at_def)
  ultimately show ?thesis
    using Cons by (intro exI [of _ ?s] exI [of _ f]) simp
qed

lemma stack_pop_spec:
  assumes inv: "stack_inv s fs (a # ss)"
    and cp: "T_copy T (value_f (the (s_nodes s a))) = Some out"
    and mv: "T_move T (T_default T) = Some d"
  shows "\<exists>s'. stack_pop T s = Return (Some out) s' \<and> stack_inv s' fs ss \<and>
           values_at (s_nodes s') ss = values_at (s_nodes s) ss \<and> s_new s' = s_new s"
proof -
  from inv obtain an where i:
    "untag (stack_f s) = a" "a \<noteq> 0" "s_nodes s a = Some an" "path (s_nodes s) (next_f an) ss"
    "path (s_nodes s) (free_f s) fs" "a \<notin> set fs" "a \<notin> set ss" "distinct fs" "distinct ss"
    "set fs \<inter> set ss = {}" "fresh (dom (s_nodes s)) (s_new s)"
    by (auto simp: stack_inv_def split: option.splits)
  let ?s = "s\<lparr>stack_f := inctag (next_f an),
              s_nodes := (s_nodes s)(a \<mapsto> an\<lparr>value_f := d\<rparr>)\<rparr>"
  have "stack_pop T s = Return (Some out) ?s"
    using i cp mv by (simp add: stack_pop_def impl_pop_eq)
  moreover have "stack_inv ?s fs ss"
  proof -
    have "dom ((s_nodes s)(a \<mapsto> an\<lparr>value_f := d\<rparr>)) = dom (s_nodes s)"
      using i(3) by auto
    then show ?thesis
      using i by (simp add: stack_inv_def path_upd path_retag [of "inctag (next_f an)" "next_f an"])
  qed
  moreover have "values_at (s_nodes ?s) ss = values_at (s_nodes s) ss"
    using i(7) by (auto simp: values_at_def)
  ultimately show ?thesis
    by (intro exI [of _ ?s]) simp
qed

lemma stack_pop_empty: "stack_inv s fs [] \<Longrightarrow> stack_pop T s = Return None s"
  by (simp add: stack_inv_def stack_pop_def impl_pop_eq)

subsection \<open>Round trips through the stack\<close>

lemma values_at_append: "values_at c (as @ bs) = values_at c as @ values_at c bs"
  by (simp add: values_at_def)

lemma stack_push_all_spec:
  "stack_inv s fs ss \<Longrightarrow> \<forall>v\<in>set vs. T_copy T v = Some v \<Longrightarrow>
   available (length vs - length fs) (s_new s) \<Longrightarrow>
   \<exists>s1 as. stack_push_all T vs s = Return () s1 \<and> stack_inv s1 (drop (length vs) fs) (as @ ss) \<and>
     values_at (s_nodes s1) (as @ ss) = rev vs @ values_at (s_nodes s) ss \<and> length as = length vs"
proof (induction vs arbitrary: s fs ss)
  case Nil
  then show ?case by simp
next
  case (Cons v vs)
  have mem: "fs = [] \<Longrightarrow> available (Suc 0) (s_new s)"
    using Cons.prems(3) by (auto intro: available_mono)
  from Cons.prems(2) have cp: "T_copy T v = Some v" by simp
  from stack_push_spec [OF Cons.prems(1) cp mem] obtain s' a where
    s': "stack_push T v s = Return () s'" "stack_inv s' (tl fs) (a # ss)"
      "values_at (s_nodes s') (a # ss) = v # values_at (s_nodes s) ss"
      "s_new s' = (if fs = [] then tl (s_new s) else s_new s)"
    by blast
  have "available (length vs - length (tl fs)) (s_new s')"
  proof (cases fs)
    case Nil
    with Cons.prems(3) s'(4) show ?thesis
      by (auto simp: available_Suc)
  next
    case (Cons f fs')
    with Cons.prems(3) s'(4) show ?thesis by simp
  qed
  with Cons.IH [OF s'(2)] Cons.prems(2) obtain s1 as where
    s1: "stack_push_all T vs s' = Return () s1"
      "stack_inv s1 (drop (length vs) (tl fs)) (as @ a # ss)"
      "values_at (s_nodes s1) (as @ a # ss) = rev vs @ values_at (s_nodes s') (a # ss)"
      "length as = length vs"
    by auto
  have "stack_push_all T (v # vs) s = Return () s1 \<and>
      stack_inv s1 (drop (length (v # vs)) fs) ((as @ [a]) @ ss) \<and>
      values_at (s_nodes s1) ((as @ [a]) @ ss) = rev (v # vs) @ values_at (s_nodes s) ss \<and>
      length (as @ [a]) = length (v # vs)"
    using s' s1 by (simp add: drop_Suc)
  then show ?case by blast
qed

lemma stack_pop_n_spec:
  "stack_inv s fs (as @ ss) \<Longrightarrow> \<forall>v\<in>set (values_at (s_nodes s) as). T_copy T v = Some v \<Longrightarrow>
   T_move T (T_default T) = Some d \<Longrightarrow>
   \<exists>s2. stack_pop_n T (length as) s = Return (map Some (values_at (s_nodes s) as)) s2 \<and>
     stack_inv s2 fs ss \<and> values_at (s_nodes s2) ss = values_at (s_nodes s) ss"
proof (induction as arbitrary: s)
  case Nil
  then show ?case by (simp add: values_at_def)
next
  case (Cons a as)
  from Cons.prems(2) have cp: "T_copy T (value_f (the (s_nodes s a))) = Some (value_f (the (s_nodes s a)))"
    by (simp add: values_at_def)
  from Cons.prems(1) have inv: "stack_inv s fs (a # as @ ss)" by simp
  from stack_pop_spec [OF inv cp Cons.prems(3)] obtain s' where
    s': "stack_pop T s = Return (Some (value_f (the (s_nodes s a)))) s'" "stack_inv s' fs (as @ ss)"
      "values_at (s_nodes s') (as @ ss) = values_at (s_nodes s) (as @ ss)"
    by blast
  from s'(3) have eq: "values_at (s_nodes s') as = values_at (s_nodes s) as"
    "values_at (s_nodes s') ss = values_at (s_nodes s) ss"
    by (simp_all add: values_at_append values_at_def)
  with Cons.prems(2) have "\<forall>v\<in>set (values_at (s_nodes s') as). T_copy T v = Some v"
    by (simp add: values_at_def)
  from Cons.IH [OF s'(2) this Cons.prems(3)] obtain s2 where
    "stack_pop_n T (length as) s' = Return (map Some (values_at (s_nodes s') as)) s2"
    "stack_inv s2 fs ss" "values_at (s_nodes s2) ss = values_at (s_nodes s') ss"
    by blast
  with s'(1) eq have "stack_pop_n T (length (a # as)) s =
      Return (map Some (values_at (s_nodes s) (a # as))) s2 \<and>
     stack_inv s2 fs ss \<and> values_at (s_nodes s2) ss = values_at (s_nodes s) ss"
    by (simp add: values_at_def)
  then show ?case by blast
qed

text \<open>
  C8: on a single-threaded stack (any state that satisfies the invariant, with
  whatever is already on it), pushing the identifiers \<open>vs\<close> and then popping as many
  times succeeds and returns them in reverse insertion order. The copies of the
  identifiers do not raise, and the allocator serves the nodes that the free list
  cannot.
\<close>

theorem stack_lifo_round_trip:
  assumes "stack_inv s fs ss"
    and "\<forall>v\<in>set vs. T_copy T v = Some v"
    and "T_move T (T_default T) = Some d"
    and "available (length vs - length fs) (s_new s)"
  shows "\<exists>s1 s2. stack_push_all T vs s = Return () s1 \<and>
           stack_pop_n T (length vs) s1 = Return (map Some (rev vs)) s2"
proof -
  from stack_push_all_spec [OF assms(1,2,4)] obtain s1 as where
    s1: "stack_push_all T vs s = Return () s1" "stack_inv s1 (drop (length vs) fs) (as @ ss)"
      "values_at (s_nodes s1) (as @ ss) = rev vs @ values_at (s_nodes s) ss" "length as = length vs"
    by blast
  from s1(3,4) have vals: "values_at (s_nodes s1) as = rev vs"
    by (simp add: values_at_append values_at_def)
  with assms(2) have "\<forall>v\<in>set (values_at (s_nodes s1) as). T_copy T v = Some v"
    by simp
  from stack_pop_n_spec [OF s1(2) this assms(3)] obtain s2 where
    "stack_pop_n T (length as) s1 = Return (map Some (values_at (s_nodes s1) as)) s2"
    by blast
  with s1(1,4) vals show ?thesis by auto
qed

subsection \<open>The claims about the stack\<close>

text \<open>
  C10: whatever the allocator does while the public stack is constructed with initial
  capacity \<open>N\<close>, the constructor returns normally. When an allocation raises, the nodes
  allocated so far are deleted again: the heap of the stack is empty, its free list
  holds no node (fewer than \<open>N\<close>), and the stack satisfies its invariant, so it can be
  used.
\<close>

theorem stack_ctor_swallows_bad_alloc:
  assumes "fresh {} al"
  shows "\<exists>s fs. stack_ctor T N al = Return () s \<and> stack_inv s fs [] \<and>
           (if available (unat N) al then length fs = unat N
            else fs = [] \<and> s_nodes s = Map.empty \<and> length fs < unat N)"
proof (cases "available (unat N) al")
  case True
  from stack_ctor_available [OF assms True, of T] show ?thesis
    using True by auto
next
  case False
  from stack_ctor_unavailable [OF assms False, of T] show ?thesis
    using False by auto
qed

lemma stack_fill_unfold:
  "stack_fill T (numeral k) s =
     (case new (s_new s) of
        (None, rest) \<Rightarrow> Throw bad_alloc (s\<lparr>s_new := rest\<rparr>)
      | (Some a, rest) \<Rightarrow>
          let n = a;
              s1 = s\<lparr>s_new := rest,
                     s_nodes := (s_nodes s)(a \<mapsto> \<lparr>value_f = T_default T, next_f = 0\<rparr>)\<rparr>
          in case impl_push (s_nodes s1) (free_f s1) n of
               None \<Rightarrow> Undefined
             | Some (c, fh) \<Rightarrow> stack_fill T (pred_numeral k) (s1\<lparr>s_nodes := c, free_f := fh\<rparr>))"
  by (simp add: numeral_eq_Suc)

theorem stack_ctor_swallows_bad_alloc_witness:
  "fresh {} [Some 16, None, Some 32] \<and>
   \<not> available (unat (2 :: 64 word)) [Some 16, None, Some 32] \<and>
   (\<exists>s fs. stack_ctor (plain (0 :: nat)) 2 [Some 16, None, Some 32] = Return () s \<and>
      stack_inv s fs [] \<and>
      (if available (unat (2 :: 64 word)) [Some 16, None, Some 32] then length fs = unat (2 :: 64 word)
       else fs = [] \<and> s_nodes s = Map.empty \<and> length fs < unat (2 :: 64 word)))"
proof -
  have h: "fresh {} [Some 16, None, Some 32]"
    by (simp add: tag_eval)
  have "\<not> available (unat (2 :: 64 word)) [Some 16, None, Some 32]"
    by (simp add: available_def)
  with h stack_ctor_swallows_bad_alloc [OF h, of "plain (0 :: nat)" 2] show ?thesis
    by blast
qed

lemma stack_ctor_example:
  "stack_ctor (plain (0 :: nat)) 2 [Some 16, None, Some 32] =
     Return () \<lparr>s_nodes = Map.empty, s_new = [Some 32], free_f = tag 0 1, stack_f = 0\<rparr>"
  by (simp add: stack_ctor_def stack_fill_unfold impl_push_eq impl_pop_eq plain_def tag_eval
      stack_destroy_def stack_empty_def impl_empty_def stack_destroy_loop.simps delete_def)

theorem stack_lifo_round_trip_witness:
  "\<exists>s1 s2.
     stack_push_all (plain 0) [1, 2 :: nat]
       \<lparr>s_nodes = [16 \<mapsto> \<lparr>value_f = 0, next_f = 0\<rparr>], s_new = [Some 32],
        free_f = tag 16 1, stack_f = 0\<rparr> = Return () s1 \<and>
     stack_pop_n (plain 0) (length [1, 2 :: nat]) s1 = Return (map Some (rev [1, 2])) s2"
proof (rule stack_lifo_round_trip [where fs = "[16]" and ss = "[]" and d = 0])
  show "stack_inv \<lparr>s_nodes = [16 \<mapsto> \<lparr>value_f = 0 :: nat, next_f = 0\<rparr>], s_new = [Some 32],
        free_f = tag 16 1, stack_f = 0\<rparr> [16] []"
    by (simp add: stack_inv_def tag_eval)
  show "\<forall>v\<in>set [1, 2 :: nat]. T_copy (plain 0) v = Some v"
    by (simp add: plain_def)
  show "T_move (plain (0 :: nat)) (T_default (plain 0)) = Some 0"
    by (simp add: plain_def)
  show "available (length [1, 2 :: nat] - length [16 :: ptr])
     (s_new \<lparr>s_nodes = [16 \<mapsto> \<lparr>value_f = 0 :: nat, next_f = 0\<rparr>], s_new = [Some 32],
        free_f = tag 16 1, stack_f = 0\<rparr>)"
    by (simp add: available_def)
qed

text \<open>
  C4, as the code has it: a successful push installs the pushed word \<open>e\<close> with its own
  tag incremented, and a successful pop installs the \<open>next_\<close> word of the popped node
  with the tag of that word incremented. The tag of the old head word is not read.
\<close>

theorem impl_stack_installs_own_tag_plus_one:
  "(impl_push c head e = Some (c', head') \<longrightarrow> head' = tag e (get_tag e + 1)) \<and>
   (impl_pop c head = Some (Some x, head'') \<longrightarrow>
      x = head \<and> (\<exists>hn. c (untag head) = Some hn \<and>
                         head'' = tag (next_f hn) (get_tag (next_f hn) + 1)))"
  by (auto simp: impl_push_eq impl_pop_eq inctag_def split: option.splits if_splits)

theorem impl_stack_installs_own_tag_plus_one_witness:
  "impl_push [16 \<mapsto> \<lparr>value_f = 0 :: nat, next_f = tag 32 5\<rparr>, 48 \<mapsto> \<lparr>value_f = 0, next_f = 0\<rparr>]
       (tag 16 2) (tag 48 1)
     = Some ([16 \<mapsto> \<lparr>value_f = 0 :: nat, next_f = tag 32 5\<rparr>,
              48 \<mapsto> \<lparr>value_f = 0, next_f = tag 16 2\<rparr>], tag 48 2) \<and>
   tag 48 2 = tag (tag 48 1) (get_tag (tag 48 1) + 1) \<and>
   impl_pop [16 \<mapsto> \<lparr>value_f = 0 :: nat, next_f = tag 32 5\<rparr>, 48 \<mapsto> \<lparr>value_f = 0, next_f = 0\<rparr>]
       (tag 16 2)
     = Some (Some (tag 16 2), tag 32 6) \<and>
   (\<exists>hn. [16 \<mapsto> \<lparr>value_f = 0 :: nat, next_f = tag 32 5\<rparr>, 48 \<mapsto> \<lparr>value_f = 0, next_f = 0\<rparr>]
           (untag (tag 16 2)) = Some hn \<and>
         tag 32 6 = tag (next_f hn) (get_tag (next_f hn) + 1))"
proof -
  let ?c = "[16 \<mapsto> \<lparr>value_f = 0 :: nat, next_f = tag 32 5\<rparr>, 48 \<mapsto> \<lparr>value_f = 0, next_f = 0\<rparr>]"
  let ?c' = "[16 \<mapsto> \<lparr>value_f = 0 :: nat, next_f = tag 32 5\<rparr>,
              48 \<mapsto> \<lparr>value_f = 0, next_f = tag 16 2\<rparr>]"
  have a: "impl_push ?c (tag 16 2) (tag 48 1) = Some (?c', tag 48 2)"
    by (simp add: impl_push_eq tag_eval)
  have b: "impl_pop ?c (tag 16 2) = Some (Some (tag 16 2), tag 32 6)"
    by (simp add: impl_pop_eq tag_eval)
  from impl_stack_installs_own_tag_plus_one
    [of ?c "tag 16 2" "tag 48 1" ?c' "tag 48 2" "tag 16 2" "tag 32 6"] a b
  show ?thesis by blast
qed

text \<open>
  C4 as stated fails: on an empty stack (head word 0, tag 0) the push of the word
  \<open>tag 16 1\<close>, which is what \<open>pop\<close> of a free list holding the one node 16 returns,
  installs tag 2, not the tag of the old head plus one.
\<close>

theorem impl_push_tag_counterexample:
  "impl_push [16 \<mapsto> \<lparr>value_f = 0 :: nat, next_f = 0\<rparr>] 0 (tag 16 1)
     = Some ([16 \<mapsto> \<lparr>value_f = 0, next_f = 0\<rparr>], tag 16 2) \<and>
   tag 16 2 \<noteq> tag (tag 16 1) (get_tag 0 + 1)"
  by (simp add: impl_push_eq tag_eval)

section \<open>The queue\<close>

subsection \<open>The free list as a list of pointer words\<close>

lemma pool_rep_empty_stack: "pool_rep s pool \<Longrightarrow> stack_empty s \<longleftrightarrow> pool = []"
proof -
  assume "pool_rep s pool"
  then obtain fs ss where i: "stack_inv s fs ss" "values_at (s_nodes s) ss = pool"
    by (auto simp: pool_rep_def)
  then have "path (s_nodes s) (stack_f s) ss" by (simp add: stack_inv_def)
  then have "untag (stack_f s) = 0 \<longleftrightarrow> ss = []"
    by (cases ss) auto
  with i(2) show ?thesis
    by (auto simp: stack_empty_def impl_empty_def values_at_def)
qed

lemma pool_pop_empty: "pool_rep s [] \<Longrightarrow> stack_pop node_ptr s = Return None s"
  by (auto simp: pool_rep_def values_at_def intro: stack_pop_empty)

lemma pool_pop:
  assumes "pool_rep s (p # pool)"
  shows "\<exists>s'. stack_pop node_ptr s = Return (Some p) s' \<and> pool_rep s' pool \<and> s_new s' = s_new s"
proof -
  from assms obtain fs ss where i: "stack_inv s fs ss" "values_at (s_nodes s) ss = p # pool"
    by (auto simp: pool_rep_def)
  then obtain a ss' where ss: "ss = a # ss'" "value_f (the (s_nodes s a)) = p"
    "values_at (s_nodes s) ss' = pool"
    by (cases ss) (auto simp: values_at_def)
  have cp: "T_copy node_ptr (value_f (the (s_nodes s a))) = Some p"
    and mv: "T_move node_ptr (T_default node_ptr) = Some 0"
    using ss(2) by (simp_all add: node_ptr_def)
  from stack_pop_spec [OF i(1) [unfolded ss(1)] cp mv] ss(3) show ?thesis
    by (auto simp: pool_rep_def)
qed

lemma pool_push:
  assumes "pool_rep s pool" and "available (Suc 0) (s_new s)"
  shows "\<exists>s' j. stack_push node_ptr p s = Return () s' \<and> pool_rep s' (p # pool) \<and>
           j \<le> 1 \<and> s_new s' = drop j (s_new s)"
proof -
  from assms(1) obtain fs ss where i: "stack_inv s fs ss" "values_at (s_nodes s) ss = pool"
    by (auto simp: pool_rep_def)
  have cp: "T_copy node_ptr p = Some p" by (simp add: node_ptr_def)
  from stack_push_spec [OF i(1) cp assms(2)] obtain s' a where
    s': "stack_push node_ptr p s = Return () s'" "stack_inv s' (tl fs) (a # ss)"
      "values_at (s_nodes s') (a # ss) = p # values_at (s_nodes s) ss"
      "s_new s' = (if fs = [] then tl (s_new s) else s_new s)"
    by blast
  have "s_new s' = drop (if fs = [] then 1 else 0) (s_new s)"
    using s'(4) by (simp add: drop_Suc)
  with s' i(2) show ?thesis
    by (intro exI [of _ s'] exI [of _ "if fs = [] then 1 else 0"])
       (auto simp: pool_rep_def)
qed

lemma pool_rep_ctor:
  assumes "fresh {} sal"
  shows "\<exists>s. stack_ctor node_ptr N sal = Return () s \<and> pool_rep s []"
proof -
  from stack_ctor_available [OF assms, of N node_ptr] stack_ctor_unavailable [OF assms, of N node_ptr]
  obtain s fs where "stack_ctor node_ptr N sal = Return () s" "stack_inv s fs []"
    by (cases "available (unat N) sal") blast+
  then show ?thesis
    by (auto simp: pool_rep_def values_at_def)
qed

subsection \<open>The count of nodes cannot wrap\<close>

lemma path_canonical: "path c p as \<Longrightarrow> \<forall>a\<in>set as. untag a = a"
proof (induction as arbitrary: p)
  case (Cons a as)
  then show ?case
    by (auto split: option.splits)
qed simp

lemma canonical_bound:
  assumes "distinct xs" and "\<forall>x\<in>set xs. untag x = x"
  shows "length xs \<le> 2 ^ 48"
proof -
  have "unat ` set xs \<subseteq> {..< 2 ^ 48}"
  proof
    fix n assume "n \<in> unat ` set xs"
    then obtain x where x: "x \<in> set xs" "n = unat x" by auto
    with assms(2) have "take_bit 48 x = x" by (simp add: untag_take_bit)
    then have "unat x = take_bit 48 (unat x)"
      by (metis unsigned_take_bit_eq)
    then have "unat x < 2 ^ 48"
      by (metis take_bit_nat_less_exp)
    with x show "n \<in> {..< 2 ^ 48}" by simp
  qed
  then have "card (unat ` set xs) \<le> card {..< (2 ^ 48 :: nat)}"
    by (intro card_mono) simp_all
  moreover have "card (unat ` set xs) = card (set xs)"
    by (intro card_image) (simp add: inj_on_def word_unat_eq_iff)
  moreover have "card (set xs) = length xs"
    using assms(1) by (simp add: distinct_card)
  ultimately show ?thesis by simp
qed

lemma nodes_inv_bound:
  assumes "nodes_inv q chain pool"
  shows "length chain + length pool \<le> 2 ^ 48"
proof -
  from assms have "distinct (chain @ map untag pool)" "path (q_nodes q) (head_f q) chain"
    by (simp_all add: nodes_inv_def)
  then have "length (chain @ map untag pool) \<le> 2 ^ 48"
    using path_canonical [of "q_nodes q" "head_f q" chain]
    by (intro canonical_bound) auto
  then show ?thesis by simp
qed

lemma capacity_succ:
  assumes "unat (c :: 64 word) = n" and "n + 1 \<le> 2 ^ 48"
  shows "unat (c + 1) = n + 1"
proof -
  have "(2 :: nat) ^ 48 < 2 ^ 64" by simp
  with assms have "unat c + unat (1 :: 64 word) < 2 ^ LENGTH(64)"
    by simp
  then have "unat (c + 1) = unat c + unat (1 :: 64 word)"
    by (simp only: unat_add_lem)
  with assms show ?thesis by simp
qed

subsection \<open>Linking at the end of a chain\<close>

lemma path_last:
  "path c p as \<Longrightarrow> as \<noteq> [] \<Longrightarrow> \<exists>ln. c (last as) = Some ln \<and> untag (next_f ln) = 0"
proof (induction as arbitrary: p)
  case (Cons a as)
  then show ?case
    by (cases "as = []") (auto split: option.splits)
qed simp

lemma path_snoc:
  "path c p as \<Longrightarrow> as \<noteq> [] \<Longrightarrow> distinct as \<Longrightarrow> c (last as) = Some ln \<Longrightarrow>
   a \<notin> set as \<Longrightarrow> a \<noteq> 0 \<Longrightarrow> untag w = a \<Longrightarrow> c a = Some an \<Longrightarrow> untag (next_f an) = 0 \<Longrightarrow>
   path (c(last as \<mapsto> ln\<lparr>next_f := w\<rparr>)) p (as @ [a])"
proof (induction as arbitrary: p)
  case (Cons b bs)
  show ?case
  proof (cases "bs = []")
    case True
    with Cons.prems show ?thesis by (auto split: option.splits)
  next
    case False
    with Cons.prems have neq: "b \<noteq> last bs" by auto
    from Cons.prems obtain bn where bn: "c b = Some bn" "path c (next_f bn) bs" "untag p = b" "b \<noteq> 0"
      by (auto split: option.splits)
    from Cons.prems False have ih: "path (c(last bs \<mapsto> ln\<lparr>next_f := w\<rparr>)) (next_f bn) (bs @ [a])"
      by (intro Cons.IH bn) auto
    have l: "last (b # bs) = last bs"
      using False by simp
    have "(c(last bs \<mapsto> ln\<lparr>next_f := w\<rparr>)) b = Some bn"
      using bn(1) neq by simp
    with ih bn(3,4) show ?thesis
      unfolding l append_Cons path.simps by simp
  qed
qed simp

subsection \<open>The steps of the queue operations\<close>

lemma nodes_inv_free_upd [simp]:
  "nodes_inv (q\<lparr>q_free_f := s\<rparr>) chain pool = nodes_inv q chain pool"
  by (simp add: nodes_inv_def)

lemma alloc_node_spec:
  assumes inv: "queue_inv q chain pool"
    and mem: "pool = [] \<Longrightarrow> available (Suc 0) (q_new q)"
  shows "\<exists>n q1. alloc_node T q = Return n q1 \<and>
           nodes_inv q1 chain (n # tl pool) \<and> pool_rep (q_free_f q1) (tl pool) \<and>
           q_nodes q1 (untag n) \<noteq> None \<and> (pool \<noteq> [] \<longrightarrow> n = hd pool) \<and>
           (pool = [] \<longrightarrow> q_nodes q1 (untag n) = Some \<lparr>value_f = T_default T, next_f = 0\<rparr> \<and>
               get_tag n = 0) \<and>
           payload q1 chain = payload q chain \<and>
           q_new q1 = (if pool = [] then tl (q_new q) else q_new q) \<and>
           capacity_f q1 = (if pool = [] then capacity_f q + 1 else capacity_f q) \<and>
           s_new (q_free_f q1) = s_new (q_free_f q)"
proof (cases pool)
  case Nil
  with mem obtain a rs where al: "q_new q = Some a # rs"
    by (auto simp: available_Suc)
  from inv Nil have i: "nodes_inv q chain []" "pool_rep (q_free_f q) []"
    by (simp_all add: queue_inv_def)
  from i(1) al have a: "a \<noteq> 0" "untag a = a" "a \<notin> set chain" "dom (q_nodes q) = set chain"
    "fresh (insert a (set chain)) rs"
    by (auto simp: nodes_inv_def)
  let ?q = "q\<lparr>q_free_f := q_free_f q, q_new := rs,
              q_nodes := (q_nodes q)(a \<mapsto> \<lparr>value_f = T_default T, next_f = 0\<rparr>),
              capacity_f := capacity_f q + 1\<rparr>"
  have ret: "alloc_node T q = Return a ?q"
    using i(2) al by (simp add: alloc_node_def pool_pop_empty)
  from i(1) a have "distinct (chain @ [a])" "\<forall>x\<in>set (chain @ [a]). untag x = x"
    using path_canonical [of "q_nodes q" "head_f q" chain]
    by (auto simp: nodes_inv_def)
  then have "length (chain @ [a]) \<le> 2 ^ 48"
    by (rule canonical_bound)
  with i(1) have cap: "unat (capacity_f q + 1) = length chain + 1"
    by (intro capacity_succ) (simp_all add: nodes_inv_def)
  have "nodes_inv ?q chain [a]"
    using i(1) a cap by (simp add: nodes_inv_def path_upd)
  moreover have "payload ?q chain = payload q chain"
  proof -
    from a(3) have "a \<notin> set (tl chain)" by (cases chain) auto
    then show ?thesis by (auto simp: payload_def values_at_def)
  qed
  moreover have "get_tag a = 0"
    using get_tag_untag [of a] a(2) by simp
  ultimately show ?thesis
    using ret i(2) a(2) Nil al
    by (intro exI [of _ a] exI [of _ ?q]) simp
next
  case (Cons p pool')
  from inv Cons have i: "nodes_inv q chain (p # pool')" "pool_rep (q_free_f q) (p # pool')"
    by (simp_all add: queue_inv_def)
  from pool_pop [OF i(2)] obtain s' where
    s': "stack_pop node_ptr (q_free_f q) = Return (Some p) s'" "pool_rep s' pool'"
      "s_new s' = s_new (q_free_f q)"
    by blast
  let ?q = "q\<lparr>q_free_f := s'\<rparr>"
  have ret: "alloc_node T q = Return p ?q"
    using s'(1) by (simp add: alloc_node_def)
  have "nodes_inv ?q chain (p # pool')"
    using i(1) by simp
  moreover have "q_nodes q (untag p) \<noteq> None"
    using i(1) by (auto simp: nodes_inv_def)
  moreover have "payload ?q chain = payload q chain"
    by (simp add: payload_def)
  ultimately show ?thesis
    using ret s' Cons
    by (intro exI [of _ p] exI [of _ ?q]) simp
qed

lemma enqueue_spec:
  assumes inv: "nodes_inv q chain (n # pool)"
  shows "\<exists>q'. enqueue n q = Some (Return () q') \<and> nodes_inv q' (chain @ [untag n]) pool \<and>
           q_free_f q' = q_free_f q \<and> q_new q' = q_new q \<and> capacity_f q' = capacity_f q \<and>
           values_at (q_nodes q') (tl chain) = values_at (q_nodes q) (tl chain) \<and>
           value_f (the (q_nodes q' (untag n))) = value_f (the (q_nodes q (untag n)))"
proof -
  from inv have i: "chain \<noteq> []" "path (q_nodes q) (head_f q) chain"
    "tail_f q = tag (last chain) (get_tag (head_f q) + of_nat (length chain - 1))"
    "distinct chain" "untag n \<notin> set chain" "untag n \<noteq> 0" "untag n \<notin> set (map untag pool)"
    "distinct (map untag pool)" "set chain \<inter> set (map untag pool) = {}"
    "0 \<notin> set (map untag pool)"
    "dom (q_nodes q) = set chain \<union> insert (untag n) (set (map untag pool))"
    "fresh (dom (q_nodes q)) (q_new q)"
    "unat (capacity_f q) = length chain + Suc (length pool)"
    by (auto simp: nodes_inv_def)
  from i(11) obtain nn where nn: "q_nodes q (untag n) = Some nn"
    by auto
  let ?c1 = "(q_nodes q)(untag n \<mapsto> nn\<lparr>next_f := 0\<rparr>)"
  let ?q1 = "q\<lparr>q_nodes := ?c1\<rparr>"
  have p1: "path ?c1 (head_f q) chain"
    using i(2,5) by (simp add: path_upd)
  from path_last [OF p1 i(1)] obtain ln where
    ln: "?c1 (last chain) = Some ln" "untag (next_f ln) = 0"
    by blast
  have lc: "untag (last chain) = last chain"
    using path_canonical [OF i(2)] i(1) by simp
  have ut: "untag (tail_f q) = last chain"
    by (simp add: i(3) lc)
  let ?w = "tag n (get_tag (next_f ln) + 1)"
  let ?c2 = "?c1(last chain \<mapsto> ln\<lparr>next_f := ?w\<rparr>)"
  let ?q2 = "?q1\<lparr>q_nodes := ?c2\<rparr>"
  have neq: "last chain \<noteq> untag n"
    using i(1,5) by (metis last_in_set)
  with ln(1) have ln': "q_nodes q (last chain) = Some ln"
    by simp
  have loop: "enqueue_loop n ?q1 = Some (Return (tail_f q) ?q2)"
    by (subst enqueue_loop.simps) (simp add: Let_def compare_set_strong_def ut neq ln' ln(2))
  let ?q' = "?q2\<lparr>tail_f := tag n (get_tag (tail_f q) + 1)\<rparr>"
  have enq: "enqueue n q = Some (Return () ?q')"
    using nn loop by (simp add: enqueue_def compare_set_strong_def)
  have p2: "path ?c2 (head_f q) (chain @ [untag n])"
    using p1 i(1,4) ln(1) i(5,6)
    by (rule path_snoc [where an = "nn\<lparr>next_f := 0\<rparr>"]) simp_all
  have tl: "tag n (get_tag (tail_f q) + 1) =
      tag (last (chain @ [untag n])) (get_tag (head_f q) + of_nat (length (chain @ [untag n]) - 1))"
  proof -
    from i(1) obtain k where k: "length chain = Suc k" by (cases chain) auto
    then show ?thesis by (simp add: i(3) add.commute add.left_commute)
  qed
  have dm: "dom ?c2 = dom (q_nodes q)"
    using nn ln(1) by (auto split: if_splits)
  have "nodes_inv ?q' (chain @ [untag n]) pool"
    unfolding nodes_inv_def
    using p2 tl dm i by auto
  moreover have "values_at (q_nodes ?q') (tl chain) = values_at (q_nodes q) (tl chain)"
  proof -
    have "\<forall>a\<in>set (tl chain). value_f (the (?c2 a)) = value_f (the (q_nodes q a))"
    proof
      fix a assume "a \<in> set (tl chain)"
      with i(1) have a: "a \<in> set chain" by (cases chain) auto
      with i(5) have "a \<noteq> untag n" by auto
      with ln(1) show "value_f (the (?c2 a)) = value_f (the (q_nodes q a))"
        by (cases "a = last chain") (auto split: if_splits)
    qed
    then show ?thesis by (simp add: values_at_def)
  qed
  moreover have "value_f (the (q_nodes ?q' (untag n))) = value_f (the (q_nodes q (untag n)))"
    using nn neq by simp
  ultimately show ?thesis
    using enq by (intro exI [of _ ?q']) simp
qed

declare dequeue.simps [simp del]

lemma path_value_upd:
  "c a = Some nd \<Longrightarrow> path (c(a \<mapsto> nd\<lparr>value_f := v\<rparr>)) p as = path c p as"
  by (induction as arbitrary: p) (auto split: option.splits)

lemma nodes_inv_value_upd:
  assumes "q_nodes q a = Some nd"
  shows "nodes_inv (q\<lparr>q_nodes := (q_nodes q)(a \<mapsto> nd\<lparr>value_f := v\<rparr>)\<rparr>) chain pool
           = nodes_inv q chain pool"
proof -
  have "dom ((q_nodes q)(a \<mapsto> nd\<lparr>value_f := v\<rparr>)) = dom (q_nodes q)"
    using assms by auto
  then show ?thesis
    using assms by (simp add: nodes_inv_def path_value_upd)
qed

lemma queue_push_spec:
  assumes inv: "queue_inv q chain pool" and cp: "T_copy T v = Some v'"
    and mem: "pool = [] \<Longrightarrow> available (Suc 0) (q_new q)"
  shows "\<exists>q' a. queue_push T v q = Some (Return () q') \<and> queue_inv q' (chain @ [a]) (tl pool) \<and>
           payload q' (chain @ [a]) = payload q chain @ [v'] \<and>
           q_new q' = (if pool = [] then tl (q_new q) else q_new q) \<and>
           capacity_f q' = (if pool = [] then capacity_f q + 1 else capacity_f q) \<and>
           s_new (q_free_f q') = s_new (q_free_f q)"
proof -
  from alloc_node_spec [OF inv mem, of T] obtain n q1 where
    a: "alloc_node T q = Return n q1" "nodes_inv q1 chain (n # tl pool)"
      "pool_rep (q_free_f q1) (tl pool)" "q_nodes q1 (untag n) \<noteq> None"
      "payload q1 chain = payload q chain"
      "q_new q1 = (if pool = [] then tl (q_new q) else q_new q)"
      "capacity_f q1 = (if pool = [] then capacity_f q + 1 else capacity_f q)"
      "s_new (q_free_f q1) = s_new (q_free_f q)"
    by blast
  from a(4) obtain nn where nn: "q_nodes q1 (untag n) = Some nn" by auto
  let ?q1 = "q1\<lparr>q_nodes := (q_nodes q1)(untag n \<mapsto> nn\<lparr>value_f := v'\<rparr>)\<rparr>"
  have inv1: "nodes_inv ?q1 chain (n # tl pool)"
    using a(2) nn by (simp add: nodes_inv_value_upd)
  from enqueue_spec [OF inv1] obtain q' where
    q': "enqueue n ?q1 = Some (Return () q')" "nodes_inv q' (chain @ [untag n]) (tl pool)"
      "q_free_f q' = q_free_f ?q1" "q_new q' = q_new ?q1" "capacity_f q' = capacity_f ?q1"
      "values_at (q_nodes q') (tl chain) = values_at (q_nodes ?q1) (tl chain)"
      "value_f (the (q_nodes q' (untag n))) = value_f (the (q_nodes ?q1 (untag n)))"
    by blast
  have push: "queue_push T v q = Some (Return () q')"
    using a(1) nn cp q'(1) by (simp add: queue_push_def)
  from a(2) have nin: "untag n \<notin> set chain" "chain \<noteq> []"
    by (auto simp: nodes_inv_def)
  then have nin': "untag n \<notin> set (tl chain)"
    by (cases chain) auto
  have "values_at (q_nodes ?q1) (tl chain) = values_at (q_nodes q1) (tl chain)"
    using nin' by (auto simp: values_at_def)
  with q'(6,7) a(5) nin(2) have "payload q' (chain @ [untag n]) = payload q chain @ [v']"
    by (simp add: payload_def values_at_def)
  moreover have "queue_inv q' (chain @ [untag n]) (tl pool)"
    using q'(2,3) a(3) by (simp add: queue_inv_def)
  ultimately show ?thesis
    using push q'(3,4,5) a(6,7,8)
    by (intro exI [of _ q'] exI [of _ "untag n"]) simp
qed

lemma free_node_spec:
  assumes "nodes_inv q chain (e # pool)" and "pool_rep (q_free_f q) pool"
    and "available (Suc 0) (s_new (q_free_f q))"
  shows "\<exists>q' j. free_node e q = Return () q' \<and> queue_inv q' chain (e # pool) \<and>
           j \<le> 1 \<and> s_new (q_free_f q') = drop j (s_new (q_free_f q)) \<and>
           q_nodes q' = q_nodes q \<and> q_new q' = q_new q \<and> capacity_f q' = capacity_f q"
proof -
  from assms(1) have nz: "untag e \<noteq> 0"
    by (auto simp: nodes_inv_def)
  from pool_push [OF assms(2,3), of e] obtain s' j where
    s': "stack_push node_ptr e (q_free_f q) = Return () s'" "pool_rep s' (e # pool)"
      "j \<le> 1" "s_new s' = drop j (s_new (q_free_f q))"
    by blast
  let ?q = "q\<lparr>q_free_f := s'\<rparr>"
  have "free_node e q = Return () ?q"
    using nz s'(1) by (simp add: free_node_def)
  moreover have "queue_inv ?q chain (e # pool)"
    using assms(1) s'(2) by (simp add: queue_inv_def)
  ultimately show ?thesis
    using s'(3,4) by (intro exI [of _ ?q] exI [of _ j]) simp
qed

text \<open>
  The handler of \<open>push\<close>: when the copy of the value raises and the node came from the
  free list, the node is back on the free list and the queue is as it was.
\<close>

lemma queue_push_failure_returns_node:
  assumes inv: "queue_inv q chain pool" and cp: "T_copy T v = None" and ne: "pool \<noteq> []"
    and mem: "available (Suc 0) (s_new (q_free_f q))"
  shows "\<exists>q'. queue_push T v q = Some (Throw user_exception q') \<and> queue_inv q' chain pool \<and>
           payload q' chain = payload q chain \<and> capacity_f q' = capacity_f q \<and>
           q_new q' = q_new q"
proof -
  have m: "pool = [] \<Longrightarrow> available (Suc 0) (q_new q)"
    using ne by simp
  from alloc_node_spec [OF inv m, of T] ne obtain n q1 where
    a: "alloc_node T q = Return n q1" "nodes_inv q1 chain (n # tl pool)"
      "pool_rep (q_free_f q1) (tl pool)" "q_nodes q1 (untag n) \<noteq> None" "n = hd pool"
      "payload q1 chain = payload q chain" "q_new q1 = q_new q" "capacity_f q1 = capacity_f q"
      "s_new (q_free_f q1) = s_new (q_free_f q)"
    by auto
  from a(4) obtain nn where nn: "q_nodes q1 (untag n) = Some nn" by auto
  have mem1: "available (Suc 0) (s_new (q_free_f q1))"
    using mem a(9) by simp
  from free_node_spec [OF a(2,3) mem1] obtain q' where
    q': "free_node n q1 = Return () q'" "queue_inv q' chain (n # tl pool)"
      "q_nodes q' = q_nodes q1" "q_new q' = q_new q1" "capacity_f q' = capacity_f q1"
    by blast
  have "n # tl pool = pool"
    using a(5) ne by simp
  moreover have "payload q' chain = payload q chain"
    using q'(3) a(6) by (simp add: payload_def)
  moreover have "queue_push T v q = Some (Throw user_exception q')"
    using a(1) nn cp q'(1) by (simp add: queue_push_def)
  ultimately show ?thesis
    using q'(2,4,5) a(7,8) by (intro exI [of _ q']) simp
qed

lemma dequeue_empty:
  assumes "queue_inv q [a0] pool"
  shows "dequeue T q = Return None q"
proof -
  from assms obtain hn where i: "untag (head_f q) = a0" "q_nodes q a0 = Some hn"
    "untag (next_f hn) = 0" "tail_f q = tag a0 (get_tag (head_f q))"
    by (auto simp: queue_inv_def nodes_inv_def split: option.splits)
  from i(1,4) have "tail_f q = head_f q"
    by (metis tag_get_tag tag_untag)
  with i show ?thesis
    by (subst dequeue.simps) (simp add: Let_def)
qed

lemma dequeue_spec:
  assumes inv: "queue_inv q (a0 # a1 # as) pool"
    and cp: "T_copy T (value_f (the (q_nodes q a1))) = Some v"
    and mem: "available (Suc 0) (s_new (q_free_f q))"
  shows "\<exists>q' j. dequeue T q = Return (Some v) q' \<and> queue_inv q' (a1 # as) (head_f q # pool) \<and>
           payload q' (a1 # as) = tl (payload q (a0 # a1 # as)) \<and>
           j \<le> 1 \<and> s_new (q_free_f q') = drop j (s_new (q_free_f q)) \<and>
           q_new q' = q_new q \<and> capacity_f q' = capacity_f q"
proof -
  from inv have ni: "nodes_inv q (a0 # a1 # as) pool" and pr: "pool_rep (q_free_f q) pool"
    by (simp_all add: queue_inv_def)
  from ni obtain hn n1 where i:
    "untag (head_f q) = a0" "a0 \<noteq> 0" "q_nodes q a0 = Some hn"
    "untag (next_f hn) = a1" "a1 \<noteq> 0" "q_nodes q a1 = Some n1"
    "path (q_nodes q) (next_f n1) as"
    by (auto simp: nodes_inv_def split: option.splits)
  from ni have j:
    "tail_f q = tag (last (a1 # as)) (get_tag (head_f q) + 1 + of_nat (length as))"
    "distinct (a0 # a1 # as)" "a0 \<notin> set (map untag pool)"
    "distinct ((a1 # as) @ map untag pool)" "0 \<notin> set (map untag pool)"
    "dom (q_nodes q) = set (a0 # a1 # as) \<union> set (map untag pool)"
    "fresh (dom (q_nodes q)) (q_new q)"
    "unat (capacity_f q) = length (a0 # a1 # as) + length pool"
    by (auto simp: nodes_inv_def add.commute add.left_commute)
  have lc: "untag (last (a1 # as)) = last (a1 # as)"
    using path_canonical [of "q_nodes q" "head_f q" "a0 # a1 # as"] ni
    by (simp add: nodes_inv_def)
  have "untag (tail_f q) \<noteq> untag (head_f q)"
  proof -
    have "last (a1 # as) \<in> set (a1 # as)" by (rule last_in_set) simp
    with j(2) have "last (a1 # as) \<noteq> a0" by auto
    then show ?thesis
      unfolding j(1) untag_tag lc i(1) .
  qed
  then have neq: "head_f q \<noteq> tail_f q" by auto
  let ?q2 = "q\<lparr>head_f := tag (next_f hn) (get_tag (head_f q) + 1)\<rparr>"
  have inv2: "nodes_inv ?q2 (a1 # as) (head_f q # pool)"
    unfolding nodes_inv_def
    using i j by (auto split: option.splits)
  have pr2: "pool_rep (q_free_f ?q2) pool" and mem2: "available (Suc 0) (s_new (q_free_f ?q2))"
    using pr mem by simp_all
  from free_node_spec [OF inv2 pr2 mem2] obtain q' k where
    q': "free_node (head_f q) ?q2 = Return () q'" "queue_inv q' (a1 # as) (head_f q # pool)"
      "k \<le> 1" "s_new (q_free_f q') = drop k (s_new (q_free_f ?q2))"
      "q_nodes q' = q_nodes ?q2" "q_new q' = q_new ?q2" "capacity_f q' = capacity_f ?q2"
    by blast
  have "dequeue T q = Return (Some v) q'"
    using i neq cp q'(1)
    by (subst dequeue.simps) (simp add: Let_def compare_set_strong_def)
  moreover have "payload q' (a1 # as) = tl (payload q (a0 # a1 # as))"
    using q'(5) by (simp add: payload_def values_at_def)
  ultimately show ?thesis
    using q'(2,3,4,6,7) by (intro exI [of _ q'] exI [of _ k]) simp
qed

subsection \<open>The queue refines the FIFO queue on lists\<close>

lemma available_drop: "available (Suc k) al \<Longrightarrow> j \<le> 1 \<Longrightarrow> available k (drop j al)"
proof -
  assume a: "available (Suc k) al" and j: "j \<le> 1"
  then consider "j = 0" | "j = 1" by linarith
  then show ?thesis
  proof cases
    case 1
    with a show ?thesis by (auto intro: available_mono)
  next
    case 2
    with a show ?thesis by (auto simp: available_Suc)
  qed
qed

lemma queue_empty_iff:
  assumes "queue_inv q chain pool"
  shows "queue_empty q \<longleftrightarrow> tl chain = []"
proof (cases chain)
  case Nil
  with assms show ?thesis by (simp add: queue_inv_def nodes_inv_def)
next
  case (Cons a0 rest)
  show ?thesis
  proof (cases rest)
    case Nil
    with Cons assms have "untag (head_f q) = a0" "tail_f q = tag a0 (get_tag (head_f q))"
      by (auto simp: queue_inv_def nodes_inv_def)
    then have "tail_f q = head_f q"
      by (metis tag_get_tag tag_untag)
    with Cons Nil show ?thesis by (simp add: queue_empty_def)
  next
    case (Cons a1 as)
    with \<open>chain = a0 # rest\<close> assms have ni: "nodes_inv q (a0 # a1 # as) pool"
      by (simp add: queue_inv_def)
    then have i: "untag (head_f q) = a0" "distinct (a0 # a1 # as)"
      "tail_f q = tag (last (a1 # as)) (get_tag (head_f q) + of_nat (length (a1 # as)))"
      by (auto simp: nodes_inv_def)
    have lc: "untag (last (a1 # as)) = last (a1 # as)"
      using path_canonical [of "q_nodes q" "head_f q" "a0 # a1 # as"] ni
      by (simp add: nodes_inv_def)
    have "last (a1 # as) \<in> set (a1 # as)" by (rule last_in_set) simp
    with i(2) have "last (a1 # as) \<noteq> a0" by auto
    then have "untag (tail_f q) \<noteq> untag (head_f q)"
      unfolding i(3) untag_tag lc i(1) .
    then have "head_f q \<noteq> tail_f q" by auto
    with Cons \<open>chain = a0 # rest\<close> show ?thesis by (simp add: queue_empty_def)
  qed
qed

lemma queue_inv_capacity:
  "queue_inv q chain pool \<Longrightarrow> unat (capacity_f q) = length chain + length pool"
  by (simp add: queue_inv_def nodes_inv_def)

lemma queue_run_refines:
  "queue_inv q chain pool \<Longrightarrow> \<forall>v. T_copy T v = Some v \<Longrightarrow>
   available (pushes ops) (q_new q) \<Longrightarrow> available (pops ops) (s_new (q_free_f q)) \<Longrightarrow>
   \<exists>q' chain' pool'.
     queue_run T ops q = Some (Return (fst (fifo_run ops (payload q chain))) q') \<and>
     queue_inv q' chain' pool' \<and> payload q' chain' = snd (fifo_run ops (payload q chain)) \<and>
     unat (capacity_f q) \<le> unat (capacity_f q')"
proof (induction ops arbitrary: q chain pool)
  case Nil
  then show ?case by auto
next
  case (Cons x ops)
  show ?case
  proof (cases x)
    case (Push v)
    from Cons.prems(3) Push have av: "available (Suc (pushes ops)) (q_new q)"
      by (simp add: pushes_def)
    then have mem: "pool = [] \<Longrightarrow> available (Suc 0) (q_new q)"
      by (auto intro: available_mono)
    from Cons.prems(2) have cp: "T_copy T v = Some v" by simp
    from queue_push_spec [OF Cons.prems(1) cp mem] obtain q1 a where
      q1: "queue_push T v q = Some (Return () q1)" "queue_inv q1 (chain @ [a]) (tl pool)"
        "payload q1 (chain @ [a]) = payload q chain @ [v]"
        "q_new q1 = (if pool = [] then tl (q_new q) else q_new q)"
        "s_new (q_free_f q1) = s_new (q_free_f q)"
      by blast
    have "available (pushes ops) (q_new q1)"
      using av q1(4) available_drop [of "pushes ops" "q_new q" 1]
        available_drop [of "pushes ops" "q_new q" 0]
      by (auto simp: drop_Suc)
    moreover have "available (pops ops) (s_new (q_free_f q1))"
      using Cons.prems(4) Push q1(5) by (simp add: pops_def)
    ultimately obtain q' chain' pool' where
      q': "queue_run T ops q1 = Some (Return (fst (fifo_run ops (payload q1 (chain @ [a])))) q')"
        "queue_inv q' chain' pool'"
        "payload q' chain' = snd (fifo_run ops (payload q1 (chain @ [a])))"
        "unat (capacity_f q1) \<le> unat (capacity_f q')"
      using Cons.IH [OF q1(2) Cons.prems(2)] by blast
    have "unat (capacity_f q) \<le> unat (capacity_f q1)"
      using queue_inv_capacity [OF Cons.prems(1)] queue_inv_capacity [OF q1(2)] by simp
    with q' q1 Push show ?thesis
      by (intro exI [of _ q'] exI [of _ chain'] exI [of _ pool']) simp
  next
    case Pop
    from Cons.prems(4) Pop have av: "available (Suc (pops ops)) (s_new (q_free_f q))"
      by (simp add: pops_def)
    from Cons.prems(1) have ne: "chain \<noteq> []"
      by (simp add: queue_inv_def nodes_inv_def)
    then obtain a0 rest where ch: "chain = a0 # rest" by (cases chain) auto
    show ?thesis
    proof (cases rest)
      case Nil
      with ch Cons.prems(1) have "dequeue T q = Return None q"
        by (auto intro: dequeue_empty)
      moreover have "payload q chain = []"
        using ch Nil by (simp add: payload_def values_at_def)
      moreover have "available (pushes ops) (q_new q)" "available (pops ops) (s_new (q_free_f q))"
        using Cons.prems(3) Pop av by (auto simp: pushes_def intro: available_mono)
      from Cons.IH [OF Cons.prems(1,2) this] obtain q' chain' pool' where
        "queue_run T ops q = Some (Return (fst (fifo_run ops (payload q chain))) q')"
        "queue_inv q' chain' pool'" "payload q' chain' = snd (fifo_run ops (payload q chain))"
        "unat (capacity_f q) \<le> unat (capacity_f q')"
        by blast
      ultimately show ?thesis
        using Pop by (intro exI [of _ q'] exI [of _ chain'] exI [of _ pool']) (simp add: queue_pop_def)
    next
      case (Cons a1 as)
      with ch Cons.prems(1) have inv: "queue_inv q (a0 # a1 # as) pool" by simp
      let ?v = "value_f (the (q_nodes q a1))"
      from Cons.prems(2) have cp: "T_copy T ?v = Some ?v" by simp
      have mem: "available (Suc 0) (s_new (q_free_f q))"
        using av by (auto intro: available_mono)
      from dequeue_spec [OF inv cp mem] obtain q1 j where
        q1: "dequeue T q = Return (Some ?v) q1" "queue_inv q1 (a1 # as) (head_f q # pool)"
          "payload q1 (a1 # as) = tl (payload q (a0 # a1 # as))"
          "j \<le> 1" "s_new (q_free_f q1) = drop j (s_new (q_free_f q))"
          "q_new q1 = q_new q" "capacity_f q1 = capacity_f q"
        by blast
      have pl: "payload q chain = ?v # payload q1 (a1 # as)"
        using q1(3) ch Cons by (simp add: payload_def values_at_def)
      have "available (pushes ops) (q_new q1)"
        using Cons.prems(3) Pop q1(6) by (simp add: pushes_def)
      moreover have "available (pops ops) (s_new (q_free_f q1))"
        using av q1(4,5) by (simp add: available_drop)
      ultimately obtain q' chain' pool' where
        q': "queue_run T ops q1 = Some (Return (fst (fifo_run ops (payload q1 (a1 # as)))) q')"
          "queue_inv q' chain' pool'"
          "payload q' chain' = snd (fifo_run ops (payload q1 (a1 # as)))"
          "unat (capacity_f q1) \<le> unat (capacity_f q')"
        using Cons.IH [OF q1(2) Cons.prems(2)] by blast
      with q1 pl Pop show ?thesis
        by (intro exI [of _ q'] exI [of _ chain'] exI [of _ pool']) (simp add: queue_pop_def)
    qed
  qed
qed

subsection \<open>Facts about the FIFO queue on lists\<close>

lemma fifo_run_pushes: "fifo_run (map Push vs @ ops) xs = fifo_run ops (xs @ vs)"
  by (induction vs arbitrary: xs) simp_all

lemma fifo_run_pops:
  "fifo_run (replicate (length xs) Pop) xs = (map Some xs, [])"
  by (induction xs) simp_all

lemma fifo_run_count:
  "length (snd (fifo_run ops xs)) + length (filter (\<lambda>r. r \<noteq> None) (fst (fifo_run ops xs)))
     = length xs + pushes ops"
proof (induction ops xs rule: fifo_run.induct)
  case (2 v ops xs)
  then show ?case by (simp add: pushes_def)
qed (simp_all add: pushes_def)

lemma pushes_round_trip [simp]: "pushes (map Push vs @ replicate n Pop) = length vs"
  by (simp add: pushes_def filter_map comp_def)

lemma pops_round_trip [simp]: "pops (map Push vs @ replicate n Pop) = n"
  by (simp add: pops_def filter_map comp_def)

subsection \<open>Round trip and emptiness\<close>

text \<open>
  C3: on an empty single-threaded queue, pushing the identifiers \<open>vs\<close> and then popping
  as many times succeeds, returns them in insertion order and leaves the queue empty.
  The copies of the identifiers do not raise, and both allocators can serve one node
  for each value.
\<close>

theorem queue_fifo_round_trip:
  assumes "queue_inv q [a0] pool"
    and "\<forall>v. T_copy T v = Some v"
    and "available (length vs) (q_new q)"
    and "available (length vs) (s_new (q_free_f q))"
  shows "\<exists>q'. queue_run T (map Push vs @ replicate (length vs) Pop) q
            = Some (Return (map Some vs) q') \<and> queue_empty q'"
proof -
  let ?ops = "map Push vs @ replicate (length vs) Pop"
  have pl: "payload q [a0] = []"
    by (simp add: payload_def values_at_def)
  have "available (pushes ?ops) (q_new q)" "available (pops ?ops) (s_new (q_free_f q))"
    using assms(3,4) by simp_all
  from queue_run_refines [OF assms(1,2) this] obtain q' chain' pool' where
    q': "queue_run T ?ops q = Some (Return (fst (fifo_run ?ops (payload q [a0]))) q')"
      "queue_inv q' chain' pool'" "payload q' chain' = snd (fifo_run ?ops (payload q [a0]))"
    by blast
  have f: "fifo_run ?ops [] = (map Some vs, [])"
    using fifo_run_pushes [of vs "replicate (length vs) Pop" "[]"] fifo_run_pops [of vs]
    by simp
  from q'(3) pl f have "values_at (q_nodes q') (tl chain') = []"
    by (simp add: payload_def)
  then have "tl chain' = []"
    by (simp add: values_at_def)
  with queue_empty_iff [OF q'(2)] have "queue_empty q'" by simp
  with q'(1) pl f show ?thesis by auto
qed

text \<open>
  C5: \<open>empty()\<close> compares the head word with the tail word; and after any list of
  pushes and pops on a single-threaded queue that was empty, it is true exactly when
  as many pops succeeded as values were pushed.
\<close>

theorem queue_empty_iff_pops_equal_pushes:
  assumes "queue_inv q [a0] pool"
    and "\<forall>v. T_copy T v = Some v"
    and "available (pushes ops) (q_new q)"
    and "available (pops ops) (s_new (q_free_f q))"
  shows "\<exists>rs q'. queue_run T ops q = Some (Return rs q') \<and>
           (queue_empty q' \<longleftrightarrow> head_f q' = tail_f q') \<and>
           (queue_empty q' \<longleftrightarrow> length (filter (\<lambda>r. r \<noteq> None) rs) = pushes ops)"
proof -
  have pl: "payload q [a0] = []"
    by (simp add: payload_def values_at_def)
  from queue_run_refines [OF assms] obtain q' chain' pool' where
    q': "queue_run T ops q = Some (Return (fst (fifo_run ops (payload q [a0]))) q')"
      "queue_inv q' chain' pool'" "payload q' chain' = snd (fifo_run ops (payload q [a0]))"
    by blast
  let ?rs = "fst (fifo_run ops [])"
  from fifo_run_count [of ops "[]"] have
    "length (snd (fifo_run ops [])) + length (filter (\<lambda>r. r \<noteq> None) ?rs) = pushes ops"
    by simp
  moreover have "length (snd (fifo_run ops [])) = length (tl chain')"
  proof -
    have "length (payload q' chain') = length (tl chain')"
      by (simp add: payload_def values_at_def)
    with q'(3) pl show ?thesis by simp
  qed
  ultimately have "length (tl chain') + length (filter (\<lambda>r. r \<noteq> None) ?rs) = pushes ops"
    by (simp only:)
  then have "length (tl chain') = 0 \<longleftrightarrow> length (filter (\<lambda>r. r \<noteq> None) ?rs) = pushes ops"
    by arith
  then have "tl chain' = [] \<longleftrightarrow> length (filter (\<lambda>r. r \<noteq> None) ?rs) = pushes ops"
    by (simp only: length_0_conv)
  with queue_empty_iff [OF q'(2)] q'(1) pl show ?thesis
    by (intro exI [of _ ?rs] exI [of _ q']) (simp add: queue_empty_def)
qed

subsection \<open>Allocations of a run of pushes\<close>

lemma queue_push_all_spec:
  "queue_inv q chain pool \<Longrightarrow> \<forall>v. T_copy T v = Some v \<Longrightarrow>
   available (length vs - length pool) (q_new q) \<Longrightarrow>
   \<exists>q' as. queue_run T (map Push vs) q = Some (Return [] q') \<and>
     queue_inv q' (chain @ as) (drop (length vs) pool) \<and> length as = length vs \<and>
     payload q' (chain @ as) = payload q chain @ vs \<and>
     q_new q' = drop (length vs - length pool) (q_new q) \<and>
     s_new (q_free_f q') = s_new (q_free_f q)"
proof (induction vs arbitrary: q chain pool)
  case Nil
  then show ?case by simp
next
  case (Cons v vs)
  have mem: "pool = [] \<Longrightarrow> available (Suc 0) (q_new q)"
    using Cons.prems(3) by (auto intro: available_mono)
  from Cons.prems(2) have cp: "T_copy T v = Some v" by simp
  from queue_push_spec [OF Cons.prems(1) cp mem] obtain q1 a where
    q1: "queue_push T v q = Some (Return () q1)" "queue_inv q1 (chain @ [a]) (tl pool)"
      "payload q1 (chain @ [a]) = payload q chain @ [v]"
      "q_new q1 = (if pool = [] then tl (q_new q) else q_new q)"
      "s_new (q_free_f q1) = s_new (q_free_f q)"
    by blast
  have av: "available (length vs - length (tl pool)) (q_new q1)"
    and dr: "drop (length vs - length (tl pool)) (q_new q1)
               = drop (length (v # vs) - length pool) (q_new q)"
  proof -
    show "available (length vs - length (tl pool)) (q_new q1)"
    proof (cases pool)
      case Nil
      with Cons.prems(3) q1(4) show ?thesis by (auto simp: available_Suc)
    next
      case (Cons p ps)
      with Cons.prems(3) q1(4) show ?thesis by simp
    qed
    show "drop (length vs - length (tl pool)) (q_new q1)
               = drop (length (v # vs) - length pool) (q_new q)"
    proof (cases pool)
      case Nil
      with q1(4) show ?thesis by (simp add: drop_Suc)
    next
      case (Cons p ps)
      with q1(4) show ?thesis by simp
    qed
  qed
  from Cons.IH [OF q1(2) Cons.prems(2) av] obtain q' as where
    q': "queue_run T (map Push vs) q1 = Some (Return [] q')"
      "queue_inv q' ((chain @ [a]) @ as) (drop (length vs) (tl pool))" "length as = length vs"
      "payload q' ((chain @ [a]) @ as) = payload q1 (chain @ [a]) @ vs"
      "q_new q' = drop (length vs - length (tl pool)) (q_new q1)"
      "s_new (q_free_f q') = s_new (q_free_f q1)"
    by blast
  have "queue_run T (map Push (v # vs)) q = Some (Return [] q') \<and>
     queue_inv q' (chain @ (a # as)) (drop (length (v # vs)) pool) \<and>
     length (a # as) = length (v # vs) \<and>
     payload q' (chain @ (a # as)) = payload q chain @ (v # vs) \<and>
     q_new q' = drop (length (v # vs) - length pool) (q_new q) \<and>
     s_new (q_free_f q') = s_new (q_free_f q)"
    using q1 q' dr by (simp add: drop_Suc)
  then show ?case by blast
qed

subsection \<open>Filling and draining the free list\<close>

lemma queue_fill_available:
  "fill_inv T q pool \<Longrightarrow> available k (q_new q) \<Longrightarrow> available k (s_new (q_free_f q)) \<Longrightarrow>
   \<exists>q' pool'. queue_fill T k q = Return () q' \<and> fill_inv T q' (pool' @ pool) \<and>
     length pool' = k \<and> q_new q' = drop k (q_new q) \<and> capacity_f q' = capacity_f q"
proof (induction k arbitrary: q pool)
  case 0
  then show ?case by simp
next
  case (Suc k)
  from Suc.prems(2) obtain a rs where al: "q_new q = Some a # rs" "available k rs"
    by (auto simp: available_Suc)
  from Suc.prems(1) have i: "pool_rep (q_free_f q) pool" "distinct pool" "0 \<notin> set pool"
    "\<forall>p\<in>set pool. untag p = p \<and> q_nodes q p = Some \<lparr>value_f = T_default T, next_f = 0\<rparr>"
    "dom (q_nodes q) = set pool" "fresh (set pool) (Some a # rs)" "head_f q = 0" "tail_f q = 0"
    by (auto simp: fill_inv_def al)
  then have a: "a \<noteq> 0" "untag a = a" "a \<notin> set pool" "fresh (insert a (set pool)) rs"
    by simp_all
  have mem: "available (Suc 0) (s_new (q_free_f q))"
    using Suc.prems(3) by (auto intro: available_mono)
  from pool_push [OF i(1) mem, of a] obtain s' j where
    s': "stack_push node_ptr a (q_free_f q) = Return () s'" "pool_rep s' (a # pool)"
      "j \<le> 1" "s_new s' = drop j (s_new (q_free_f q))"
    by blast
  let ?q = "q\<lparr>q_new := rs,
              q_nodes := (q_nodes q)(a \<mapsto> \<lparr>value_f = T_default T, next_f = 0\<rparr>),
              q_free_f := s'\<rparr>"
  have step: "queue_fill T (Suc k) q = queue_fill T k ?q"
    using s'(1) by (simp add: al)
  have "fill_inv T ?q (a # pool)"
    unfolding fill_inv_def using i a s'(2) by auto
  moreover have "available k (q_new ?q)"
    using al by simp
  moreover have "available k (s_new (q_free_f ?q))"
    using Suc.prems(3) s'(3,4) by (simp add: available_drop)
  ultimately obtain q' pool' where
    q': "queue_fill T k ?q = Return () q'" "fill_inv T q' (pool' @ a # pool)" "length pool' = k"
      "q_new q' = drop k (q_new ?q)" "capacity_f q' = capacity_f ?q"
    using Suc.IH by blast
  have "queue_fill T (Suc k) q = Return () q' \<and> fill_inv T q' ((pool' @ [a]) @ pool) \<and>
     length (pool' @ [a]) = Suc k \<and> q_new q' = drop (Suc k) (q_new q) \<and>
     capacity_f q' = capacity_f q"
    using q' step al by simp
  then show ?case by blast
qed

lemma queue_fill_unavailable:
  "fill_inv T q pool \<Longrightarrow> \<not> available k (q_new q) \<Longrightarrow> available k (s_new (q_free_f q)) \<Longrightarrow>
   \<exists>q' pool'. queue_fill T k q = Throw bad_alloc q' \<and> fill_inv T q' pool'"
proof (induction k arbitrary: q pool)
  case 0
  then show ?case by simp
next
  case (Suc k)
  from Suc.prems(2) consider
      (empty) "q_new q = []"
    | (fails) rs where "q_new q = None # rs"
    | (later) a rs where "q_new q = Some a # rs" "\<not> available k rs"
    by (auto simp: not_available_Suc)
  then show ?case
  proof cases
    case empty
    then have "queue_fill T (Suc k) q = Throw bad_alloc q"
      by simp
    moreover have "q\<lparr>q_new := []\<rparr> = q"
      using empty by simp
    ultimately show ?thesis
      using Suc.prems(1) by auto
  next
    case fails
    have "fill_inv T (q\<lparr>q_new := rs\<rparr>) pool"
      using Suc.prems(1) fails by (auto simp: fill_inv_def)
    moreover have "queue_fill T (Suc k) q = Throw bad_alloc (q\<lparr>q_new := rs\<rparr>)"
      using fails by simp
    ultimately show ?thesis by blast
  next
    case later
    from Suc.prems(1) have i: "pool_rep (q_free_f q) pool" "distinct pool" "0 \<notin> set pool"
      "\<forall>p\<in>set pool. untag p = p \<and> q_nodes q p = Some \<lparr>value_f = T_default T, next_f = 0\<rparr>"
      "dom (q_nodes q) = set pool" "fresh (set pool) (Some a # rs)" "head_f q = 0" "tail_f q = 0"
      by (auto simp: fill_inv_def later)
    then have a: "a \<noteq> 0" "untag a = a" "a \<notin> set pool" "fresh (insert a (set pool)) rs"
      by simp_all
    have mem: "available (Suc 0) (s_new (q_free_f q))"
      using Suc.prems(3) by (auto intro: available_mono)
    from pool_push [OF i(1) mem, of a] obtain s' j where
      s': "stack_push node_ptr a (q_free_f q) = Return () s'" "pool_rep s' (a # pool)"
        "j \<le> 1" "s_new s' = drop j (s_new (q_free_f q))"
      by blast
    let ?q = "q\<lparr>q_new := rs,
                q_nodes := (q_nodes q)(a \<mapsto> \<lparr>value_f = T_default T, next_f = 0\<rparr>),
                q_free_f := s'\<rparr>"
    have step: "queue_fill T (Suc k) q = queue_fill T k ?q"
      using s'(1) by (simp add: later)
    have "fill_inv T ?q (a # pool)"
      unfolding fill_inv_def using i a s'(2) by auto
    moreover have "\<not> available k (q_new ?q)"
      using later by simp
    moreover have "available k (s_new (q_free_f ?q))"
      using Suc.prems(3) s'(3,4) by (simp add: available_drop)
    ultimately show ?thesis
      using Suc.IH step by metis
  qed
qed

lemma queue_destroy_loop_drains:
  "pool_rep (q_free_f q) pool \<Longrightarrow> distinct pool \<Longrightarrow> 0 \<notin> set pool \<Longrightarrow>
   \<forall>p\<in>set pool. untag p = p \<and> p \<in> dom (q_nodes q) \<Longrightarrow>
   \<exists>q'. queue_destroy_loop q = Some (Return () q') \<and>
        q_nodes q' = (\<lambda>a. if a \<in> set pool then None else q_nodes q a)"
proof (induction pool arbitrary: q)
  case Nil
  then have "stack_empty (q_free_f q)"
    by (simp add: pool_rep_empty_stack)
  then show ?case
    by (subst queue_destroy_loop.simps) simp
next
  case (Cons p ps)
  from Cons.prems(1) have ne: "\<not> stack_empty (q_free_f q)"
    by (simp add: pool_rep_empty_stack)
  from pool_pop [OF Cons.prems(1)] obtain s' where
    s': "stack_pop node_ptr (q_free_f q) = Return (Some p) s'" "pool_rep s' ps"
    by blast
  from Cons.prems have p: "untag p = p" "p \<noteq> 0" "p \<in> dom (q_nodes q)" "p \<notin> set ps"
    by auto
  let ?q = "q\<lparr>q_free_f := s', q_nodes := (q_nodes q)(p := None)\<rparr>"
  have step: "queue_destroy_loop q = queue_destroy_loop ?q"
    using ne s'(1) p by (subst queue_destroy_loop.simps) (simp add: delete_def)
  have "pool_rep (q_free_f ?q) ps" "distinct ps" "0 \<notin> set ps"
    "\<forall>x\<in>set ps. untag x = x \<and> x \<in> dom (q_nodes ?q)"
    using s'(2) Cons.prems p(4) by auto
  from Cons.IH [OF this] obtain q' where
    "queue_destroy_loop ?q = Some (Return () q')"
    "q_nodes q' = (\<lambda>a. if a \<in> set ps then None else q_nodes ?q a)"
    by blast
  with step show ?case
    by (auto simp: fun_eq_iff)
qed

lemma queue_destroy_fill:
  assumes "fill_inv T q pool"
  shows "\<exists>q'. queue_destroy q = Some (Return () q') \<and> q_nodes q' = Map.empty"
proof -
  from assms have i: "pool_rep (q_free_f q) pool" "distinct pool" "0 \<notin> set pool"
    "\<forall>p\<in>set pool. untag p = p \<and> p \<in> dom (q_nodes q)" "dom (q_nodes q) = set pool"
    "head_f q = tail_f q"
    by (auto simp: fill_inv_def)
  from queue_destroy_loop_drains [OF i(1-4)] obtain q' where
    q': "queue_destroy_loop q = Some (Return () q')"
      "q_nodes q' = (\<lambda>a. if a \<in> set pool then None else q_nodes q a)"
    by blast
  from q'(2) i(5) have "q_nodes q' = Map.empty"
    by (auto simp: fun_eq_iff dom_def)
  with q'(1) i(6) show ?thesis
    by (simp add: queue_destroy_def queue_empty_def)
qed

subsection \<open>The constructor\<close>

lemma queue_ctor_available:
  assumes qal: "fresh {} qal" and sal: "fresh {} sal"
    and sc: "stack_ctor node_ptr DEFAULT_INITIAL_CAPACITY sal = Return () s0"
    and smem: "available (unat N) (s_new s0)"
    and qmem: "available (max 1 (unat N)) qal"
  shows "\<exists>q a0 pool. queue_ctor T N qal sal = Some (Return () q) \<and> queue_inv q [a0] pool \<and>
           length pool = unat N - 1 \<and> q_new q = drop (max 1 (unat N)) qal \<and>
           capacity_f q = (if N = 0 then 1 else N)"
proof -
  let ?q0 = "\<lparr>q_nodes = Map.empty, q_new = qal, capacity_f = N, head_f = 0, tail_f = 0,
              q_free_f = s0\<rparr> :: 'a queue"
  from pool_rep_ctor [OF sal, of DEFAULT_INITIAL_CAPACITY] sc have pr0: "pool_rep s0 []"
    by auto
  with qal have f0: "fill_inv T ?q0 []"
    by (simp add: fill_inv_def)
  have "available (unat N) (q_new ?q0)" "available (unat N) (s_new (q_free_f ?q0))"
    using qmem smem by (auto intro: available_mono)
  from queue_fill_available [OF f0 this] obtain q1 pool1 where
    q1: "queue_fill T (unat N) ?q0 = Return () q1" "fill_inv T q1 pool1"
      "length pool1 = unat N" "q_new q1 = drop (unat N) qal" "capacity_f q1 = N"
    by auto
  from q1(2) have i: "pool_rep (q_free_f q1) pool1" "distinct pool1" "0 \<notin> set pool1"
    "\<forall>p\<in>set pool1. untag p = p \<and> q_nodes q1 p = Some \<lparr>value_f = T_default T, next_f = 0\<rparr>"
    "dom (q_nodes q1) = set pool1" "fresh (dom (q_nodes q1)) (q_new q1)"
    by (auto simp: fill_inv_def)
  show ?thesis
  proof (cases pool1)
    case Nil
    with q1(3) have N: "N = 0" "unat N = 0"
      by (simp_all add: unat_eq_zero)
    with qmem q1(4) obtain a rs where al: "q_new q1 = Some a # rs" "qal = Some a # rs"
      by (auto simp: available_Suc)
    from i(5,6) Nil al have a: "a \<noteq> 0" "untag a = a" "fresh {a} rs" "q_nodes q1 = Map.empty"
      by auto
    let ?q = "q1\<lparr>q_free_f := q_free_f q1, q_new := rs,
                q_nodes := [a \<mapsto> \<lparr>value_f = T_default T, next_f = 0\<rparr>],
                capacity_f := 1, head_f := a, tail_f := a\<rparr>"
    have an: "alloc_node T q1 = Return a
        (q1\<lparr>q_free_f := q_free_f q1, q_new := rs,
            q_nodes := [a \<mapsto> \<lparr>value_f = T_default T, next_f = 0\<rparr>],
            capacity_f := 1\<rparr>)"
      using i(1) Nil al a(4) q1(5) N by (simp add: alloc_node_def pool_pop_empty)
    have ctor: "queue_ctor T N qal sal = Some (Return () ?q)"
      using sc q1(1) an a by (simp add: queue_ctor_def)
    have "nodes_inv ?q [a] []"
      using a get_tag_untag [of a] tag_get_tag [of a] by (simp add: nodes_inv_def)
    then have "queue_inv ?q [a] []"
      using i(1) Nil by (simp add: queue_inv_def)
    then show ?thesis
      using ctor N al by (intro exI [of _ ?q] exI [of _ a] exI [of _ "[]"]) simp
  next
    case (Cons p ps)
    with q1(3) have N: "N \<noteq> 0" "unat N = Suc (length ps)"
      by auto
    from pool_pop [OF i(1) [unfolded Cons]] obtain s' where
      s': "stack_pop node_ptr (q_free_f q1) = Return (Some p) s'" "pool_rep s' ps"
      by blast
    from i Cons have p: "p \<noteq> 0" "untag p = p"
      "q_nodes q1 p = Some \<lparr>value_f = T_default T, next_f = 0\<rparr>" "p \<notin> set ps" "distinct ps"
      "0 \<notin> set ps" "map untag ps = ps" "dom (q_nodes q1) = insert p (set ps)"
      by (auto simp: map_idI)
    let ?q = "q1\<lparr>q_free_f := s', head_f := p, tail_f := p\<rparr>"
    have an: "alloc_node T q1 = Return p (q1\<lparr>q_free_f := s'\<rparr>)"
      using s'(1) by (simp add: alloc_node_def)
    have ctor: "queue_ctor T N qal sal = Some (Return () ?q)"
      using sc q1(1) an p by (simp add: queue_ctor_def)
    have "nodes_inv ?q [p] ps"
      using p i(6) q1(5) N get_tag_untag [of p] tag_get_tag [of p] by (simp add: nodes_inv_def)
    then have "queue_inv ?q [p] ps"
      using s'(2) by (simp add: queue_inv_def)
    then show ?thesis
      using ctor N q1(4,5) by (intro exI [of _ ?q] exI [of _ p] exI [of _ ps]) (simp add: max_def)
  qed
qed

lemma queue_ctor_unavailable:
  assumes qal: "fresh {} qal" and sal: "fresh {} sal"
    and sc: "stack_ctor node_ptr DEFAULT_INITIAL_CAPACITY sal = Return () s0"
    and smem: "available (unat N) (s_new s0)"
    and qmem: "\<not> available (max 1 (unat N)) qal"
  shows "\<exists>q. queue_ctor T N qal sal = Some (Throw bad_alloc q) \<and> q_nodes q = Map.empty"
proof -
  let ?q0 = "\<lparr>q_nodes = Map.empty, q_new = qal, capacity_f = N, head_f = 0, tail_f = 0,
              q_free_f = s0\<rparr> :: 'a queue"
  from pool_rep_ctor [OF sal, of DEFAULT_INITIAL_CAPACITY] sc have pr0: "pool_rep s0 []"
    by auto
  with qal have f0: "fill_inv T ?q0 []"
    by (simp add: fill_inv_def)
  have sm: "available (unat N) (s_new (q_free_f ?q0))"
    using smem by simp
  show ?thesis
  proof (cases "available (unat N) qal")
    case False
    then have "\<not> available (unat N) (q_new ?q0)" by simp
    from queue_fill_unavailable [OF f0 this sm] obtain q1 pool1 where
      q1: "queue_fill T (unat N) ?q0 = Throw bad_alloc q1" "fill_inv T q1 pool1"
      by blast
    from queue_destroy_fill [OF q1(2)] obtain q' where
      "queue_destroy q1 = Some (Return () q')" "q_nodes q' = Map.empty"
      by blast
    with sc q1(1) show ?thesis
      by (simp add: queue_ctor_def)
  next
    case True
    with qmem have N: "unat N = 0"
      by (cases "unat N") (auto simp: max_def)
    have "available (unat N) (q_new ?q0)" using True by simp
    from queue_fill_available [OF f0 this sm] obtain q1 pool1 where
      q1: "queue_fill T (unat N) ?q0 = Return () q1" "fill_inv T q1 pool1"
        "length pool1 = unat N" "q_new q1 = drop (unat N) qal"
      by auto
    with N have e: "pool1 = []" "q_new q1 = qal" by simp_all
    from qmem N consider "qal = []" | rs where "qal = None # rs"
      by (auto simp: not_available_Suc)
    then obtain rest where nw: "new (q_new q1) = (None, rest)" "fresh {} rest"
      using e(2) qal by cases auto
    let ?q2 = "q1\<lparr>q_free_f := q_free_f q1, q_new := rest\<rparr>"
    from q1(2) e(1) have pr: "pool_rep (q_free_f q1) []" and dm: "dom (q_nodes q1) = {}"
      and ht: "head_f q1 = 0" "tail_f q1 = 0"
      by (simp_all add: fill_inv_def)
    have an: "alloc_node T q1 = Throw bad_alloc ?q2"
      using pr nw(1) by (simp add: alloc_node_def pool_pop_empty)
    have "fill_inv T ?q2 []"
      using pr dm ht nw(2) by (simp add: fill_inv_def)
    from queue_destroy_fill [OF this] obtain q' where
      "queue_destroy ?q2 = Some (Return () q')" "q_nodes q' = Map.empty"
      by blast
    with sc q1(1) an show ?thesis
      by (simp add: queue_ctor_def)
  qed
qed

section \<open>The queue of capacity one, evaluated\<close>

lemma queue_fill_unfold:
  "queue_fill T (numeral k) q =
     (case new (q_new q) of
        (None, rest) \<Rightarrow> Throw bad_alloc (q\<lparr>q_new := rest\<rparr>)
      | (Some a, rest) \<Rightarrow>
          let q1 = q\<lparr>q_new := rest,
                     q_nodes := (q_nodes q)(a \<mapsto> \<lparr>value_f = T_default T, next_f = 0\<rparr>)\<rparr>
          in case stack_push node_ptr a (q_free_f q1) of
               Return u s \<Rightarrow> queue_fill T (pred_numeral k) (q1\<lparr>q_free_f := s\<rparr>)
             | Throw e s \<Rightarrow> Throw e (q1\<lparr>q_free_f := s\<rparr>)
             | Undefined \<Rightarrow> Undefined)"
  by (simp add: numeral_eq_Suc)

lemmas stack_eval = stack_ctor_def stack_fill_unfold impl_push_eq impl_pop_eq plain_def
  stack_destroy_def stack_empty_def impl_empty_def stack_destroy_loop.simps delete_def
  stack_push_def stack_pop_def stack_emplace_def new_node_of_def node_ptr_def
  DEFAULT_INITIAL_CAPACITY_def

lemmas queue_eval = queue_ctor_def queue_fill_unfold alloc_node_def free_node_def
  queue_push_def queue_emplace_def enqueue_def queue_pop_def compare_set_strong_def
  queue_empty_def capacity_def Let_def

lemma ex_stack_ctor:
  "stack_ctor node_ptr DEFAULT_INITIAL_CAPACITY ex_sal =
     Return () \<lparr>s_nodes = Map.empty, s_new = [Some 1024, Some 2048], free_f = 0, stack_f = 0\<rparr>"
  by (simp add: stack_eval tag_eval ex_sal_def)

lemma ex_queue_ctor:
  "queue_ctor (plain 0) 1 [Some 16, Some 32] ex_sal = Some (Return () ex_q0)"
  by (simp add: stack_eval queue_eval tag_eval ex_sal_def ex_q0_def)

lemma ex_queue_push:
  "queue_run (plain 0) [Push 7] ex_q0 = Some (Return [] ex_q1)"
  by (simp add: stack_eval queue_eval tag_eval ex_q0_def ex_q1_def enqueue_loop.simps)

lemma ex_fresh: "fresh {} [Some 16, Some 32]" "fresh {} ex_sal" "fresh {} [Some 16, None]"
  by (simp_all add: tag_eval ex_sal_def)

lemma ex_q0_inv: "queue_inv ex_q0 [16] []"
proof -
  have "stack_inv (q_free_f ex_q0) [] []"
    by (simp add: stack_inv_def ex_q0_def tag_eval)
  then have "pool_rep (q_free_f ex_q0) []"
    unfolding pool_rep_def by (intro exI [of _ "[]"]) (simp add: values_at_def)
  moreover have "nodes_inv ex_q0 [16] []"
    by (simp add: nodes_inv_def ex_q0_def tag_eval)
  ultimately show ?thesis by (simp add: queue_inv_def)
qed

lemma ex_queue_ctor3:
  "queue_ctor (plain 0) 1 [Some 16, Some 32, Some 48, Some 64] ex_sal3 = Some (Return () ex_q3)"
  by (simp add: stack_eval queue_eval tag_eval ex_sal3_def ex_q3_def)

lemma ex_q3_inv: "queue_inv ex_q3 [16] []"
proof -
  have "stack_inv (q_free_f ex_q3) [] []"
    by (simp add: stack_inv_def ex_q3_def tag_eval)
  then have "pool_rep (q_free_f ex_q3) []"
    unfolding pool_rep_def by (intro exI [of _ "[]"]) (simp add: values_at_def)
  moreover have "nodes_inv ex_q3 [16] []"
    by (simp add: nodes_inv_def ex_q3_def tag_eval)
  ultimately show ?thesis by (simp add: queue_inv_def)
qed

text \<open>
  Evaluated on this queue, three pushes and three pops return the three values in the
  order of the pushes, and a stack would not: the first pop returns 7, not 9.
\<close>

lemma ex_queue_round_trip:
  "\<exists>q'. queue_run (plain 0) [Push 7, Push 8, Push 9, Pop, Pop, Pop] ex_q3
          = Some (Return [Some 7, Some 8, Some 9] q')"
  by (simp add: stack_eval queue_eval tag_eval ex_q3_def enqueue_loop.simps dequeue.simps)

section \<open>The claims about the queue\<close>

lemma available_drop_add: "available (a + b) al \<Longrightarrow> available b (drop a al)"
proof (induction a arbitrary: al)
  case (Suc a)
  then obtain x rs where "al = Some x # rs" "available (a + b) rs"
    by (auto simp: available_Suc)
  with Suc.IH show ?case by simp
qed simp

lemma queue_inv_card:
  assumes "queue_inv q chain pool"
  shows "card (dom (q_nodes q)) = length chain + length pool"
proof -
  from assms have "dom (q_nodes q) = set (chain @ map untag pool)"
    "distinct (chain @ map untag pool)"
    by (simp_all add: queue_inv_def nodes_inv_def)
  then have "card (dom (q_nodes q)) = length (chain @ map untag pool)"
    by (simp only: distinct_card)
  then show ?thesis by simp
qed

text \<open>
  C2, as the code has it: the constructor creates \<open>N\<close> nodes and pushes them onto the
  free list, and then takes the sentinel with \<open>alloc_node\<close>: for \<open>N \<ge> 1\<close> that is one
  of the \<open>N\<close> nodes (so \<open>N\<close> nodes exist, \<open>N - 1\<close> of them free), and only for \<open>N = 0\<close>
  one more node is allocated (capacity 1). Head and tail are the sentinel. If the
  allocation of a queue node raises, the constructor throws \<open>bad_alloc\<close> with every
  queue node released. The free list is given the memory for its own nodes.
\<close>

theorem queue_ctor_sentinel_from_pool:
  assumes "fresh {} qal" and "fresh {} sal"
    and "stack_ctor node_ptr DEFAULT_INITIAL_CAPACITY sal = Return () s0"
    and "available (unat N) (s_new s0)"
  shows "if available (max 1 (unat N)) qal
         then \<exists>q a0 pool. queue_ctor T N qal sal = Some (Return () q) \<and> queue_inv q [a0] pool \<and>
                untag (head_f q) = a0 \<and> head_f q = tail_f q \<and> length pool = unat N - 1 \<and>
                card (dom (q_nodes q)) = max 1 (unat N) \<and>
                q_new q = drop (max 1 (unat N)) qal \<and> capacity q = (if N = 0 then 1 else N)
         else \<exists>q. queue_ctor T N qal sal = Some (Throw bad_alloc q) \<and> q_nodes q = Map.empty"
proof (cases "available (max 1 (unat N)) qal")
  case True
  from queue_ctor_available [OF assms True, of T] obtain q a0 pool where
    q: "queue_ctor T N qal sal = Some (Return () q)" "queue_inv q [a0] pool"
      "length pool = unat N - 1" "q_new q = drop (max 1 (unat N)) qal"
      "capacity_f q = (if N = 0 then 1 else N)"
    by blast
  from q(2) have "untag (head_f q) = a0"
    by (simp add: queue_inv_def nodes_inv_def)
  moreover from queue_empty_iff [OF q(2)] have "head_f q = tail_f q"
    by (simp add: queue_empty_def)
  moreover from queue_inv_card [OF q(2)] q(3) have "card (dom (q_nodes q)) = max 1 (unat N)"
    by (simp add: max_def)
  ultimately show ?thesis
    using True q by (auto simp: capacity_def)
next
  case False
  from queue_ctor_unavailable [OF assms False, of T] show ?thesis
    using False by simp
qed

theorem queue_ctor_sentinel_from_pool_witness:
  "fresh {} [Some 16, Some 32] \<and> fresh {} [Some 16, None] \<and> fresh {} ex_sal \<and>
   stack_ctor node_ptr DEFAULT_INITIAL_CAPACITY ex_sal =
     Return () \<lparr>s_nodes = Map.empty, s_new = [Some 1024, Some 2048], free_f = 0, stack_f = 0\<rparr> \<and>
   available (unat (1 :: 64 word)) [Some 1024, Some 2048] \<and>
   available (unat (2 :: 64 word)) [Some 1024, Some 2048] \<and>
   (\<exists>q a0 pool. queue_ctor (plain (0 :: nat)) 1 [Some 16, Some 32] ex_sal = Some (Return () q) \<and>
      queue_inv q [a0] pool \<and> untag (head_f q) = a0 \<and> head_f q = tail_f q \<and>
      length pool = 0 \<and> card (dom (q_nodes q)) = 1 \<and> q_new q = [Some 32] \<and> capacity q = 1) \<and>
   (\<exists>q. queue_ctor (plain (0 :: nat)) 2 [Some 16, None] ex_sal = Some (Throw bad_alloc q) \<and>
      q_nodes q = Map.empty)"
proof -
  let ?s0 = "\<lparr>s_nodes = Map.empty, s_new = [Some 1024, Some 2048], free_f = 0, stack_f = 0\<rparr>
    :: ptr stack"
  have a1: "available (unat (1 :: 64 word)) (s_new ?s0)"
    and a2: "available (unat (2 :: 64 word)) (s_new ?s0)"
    by (simp_all add: available_def)
  have q1: "available (max 1 (unat (1 :: 64 word))) [Some 16, Some 32]"
    and q2: "\<not> available (max 1 (unat (2 :: 64 word))) [Some 16, None]"
    by (simp_all add: available_def)
  from queue_ctor_sentinel_from_pool [OF ex_fresh(1,2) ex_stack_ctor a1, of "plain (0 :: nat)"] q1
  have "\<exists>q a0 pool. queue_ctor (plain (0 :: nat)) 1 [Some 16, Some 32] ex_sal = Some (Return () q) \<and>
      queue_inv q [a0] pool \<and> untag (head_f q) = a0 \<and> head_f q = tail_f q \<and>
      length pool = 0 \<and> card (dom (q_nodes q)) = 1 \<and> q_new q = [Some 32] \<and> capacity q = 1"
    by simp
  moreover
  from queue_ctor_sentinel_from_pool [OF ex_fresh(3,2) ex_stack_ctor a2, of "plain (0 :: nat)"] q2
  have "\<exists>q. queue_ctor (plain (0 :: nat)) 2 [Some 16, None] ex_sal = Some (Throw bad_alloc q) \<and>
      q_nodes q = Map.empty"
    by simp
  ultimately show ?thesis
    using ex_fresh ex_stack_ctor a1 a2 by simp
qed

text \<open>
  C2 as stated fails: \<open>queue(1)\<close> allocates one node in all, not two; the sentinel is
  the pre-allocated node and the free list is left empty.
\<close>

theorem queue_ctor_node_count_counterexample:
  "queue_ctor (plain 0) 1 [Some 16, Some 32] ex_sal = Some (Return () ex_q0) \<and>
   dom (q_nodes ex_q0) = {16} \<and> card (dom (q_nodes ex_q0)) \<noteq> 1 + 1 \<and>
   q_new ex_q0 = [Some 32] \<and> head_f ex_q0 = 16 \<and> tail_f ex_q0 = 16"
  using ex_queue_ctor by (simp add: ex_q0_def)

text \<open>
  C6, as the code has it: a queue constructed with initial capacity \<open>C\<close> has \<open>C - 1\<close>
  free nodes when \<open>C \<ge> 1\<close> (the sentinel took one), so pushing \<open>C + n\<close> values without
  pops allocates exactly \<open>n + 1\<close> nodes (exactly \<open>n\<close> for \<open>C = 0\<close>, where the sentinel was
  an allocation of the constructor); afterwards \<open>capacity()\<close> is \<open>C + n + 1\<close>.
\<close>

theorem queue_push_beyond_capacity:
  assumes "fresh {} qal" and "fresh {} sal"
    and "stack_ctor node_ptr DEFAULT_INITIAL_CAPACITY sal = Return () s0"
    and "available (unat N) (s_new s0)"
    and "\<forall>v. T_copy T v = Some v"
    and "length vs = unat N + n"
    and "available (unat N + n + 1) qal"
  shows "\<exists>q0 q'. queue_ctor T N qal sal = Some (Return () q0) \<and>
           queue_run T (map Push vs) q0 = Some (Return [] q') \<and>
           q_new q' = drop (if N = 0 then n else n + 1) (q_new q0) \<and>
           length (q_new q0) = length (q_new q') + (if N = 0 then n else n + 1) \<and>
           unat (capacity q') = unat N + n + 1"
proof -
  have qm: "available (max 1 (unat N)) qal"
    using assms(7) by (auto intro: available_mono)
  from queue_ctor_available [OF assms(1-4) qm, of T] obtain q0 a0 pool where
    q0: "queue_ctor T N qal sal = Some (Return () q0)" "queue_inv q0 [a0] pool"
      "length pool = unat N - 1" "q_new q0 = drop (max 1 (unat N)) qal"
    by blast
  let ?k = "if N = 0 then n else n + 1"
  have N: "N = 0 \<longleftrightarrow> unat N = 0"
    by (simp add: unat_eq_zero)
  have k: "length vs - length pool = ?k"
    using q0(3) assms(6) N by auto
  have "max 1 (unat N) + ?k = unat N + n + 1"
    using N by auto
  with assms(7) have av: "available ?k (q_new q0)"
    unfolding q0(4) by (intro available_drop_add) simp
  then have av': "available (length vs - length pool) (q_new q0)"
    using k by simp
  from queue_push_all_spec [OF q0(2) assms(5) av'] obtain q' as where
    q': "queue_run T (map Push vs) q0 = Some (Return [] q')"
      "queue_inv q' ([a0] @ as) (drop (length vs) pool)" "length as = length vs"
      "q_new q' = drop (length vs - length pool) (q_new q0)"
    by blast
  have "unat (capacity_f q') = unat N + n + 1"
    using queue_inv_capacity [OF q'(2)] q'(3) q0(3) assms(6) by simp
  moreover have "length (q_new q0) = length (q_new q') + ?k"
    using av q'(4) k by (simp add: available_def)
  ultimately show ?thesis
    using q0(1) q'(1,4) k by (intro exI [of _ q0] exI [of _ q']) (simp add: capacity_def)
qed

theorem queue_push_beyond_capacity_witness:
  "fresh {} [Some 16, Some 32] \<and> fresh {} ex_sal \<and>
   stack_ctor node_ptr DEFAULT_INITIAL_CAPACITY ex_sal =
     Return () \<lparr>s_nodes = Map.empty, s_new = [Some 1024, Some 2048], free_f = 0, stack_f = 0\<rparr> \<and>
   available (unat (1 :: 64 word)) [Some 1024, Some 2048] \<and>
   length [7 :: nat] = unat (1 :: 64 word) + 0 \<and>
   available (unat (1 :: 64 word) + 0 + 1) [Some 16, Some 32] \<and>
   (\<exists>q0 q'. queue_ctor (plain (0 :: nat)) 1 [Some 16, Some 32] ex_sal = Some (Return () q0) \<and>
      queue_run (plain 0) (map Push [7]) q0 = Some (Return [] q') \<and>
      q_new q' = drop (if (1 :: 64 word) = 0 then 0 else 0 + 1) (q_new q0) \<and>
      length (q_new q0) = length (q_new q') + (if (1 :: 64 word) = 0 then 0 else 0 + 1) \<and>
      unat (capacity q') = unat (1 :: 64 word) + 0 + 1)"
proof -
  let ?s0 = "\<lparr>s_nodes = Map.empty, s_new = [Some 1024, Some 2048], free_f = 0, stack_f = 0\<rparr>
    :: ptr stack"
  have a1: "available (unat (1 :: 64 word)) (s_new ?s0)"
    by (simp add: available_def)
  have cp: "\<forall>v. T_copy (plain (0 :: nat)) v = Some v"
    by (simp add: plain_def)
  have len: "length [7 :: nat] = unat (1 :: 64 word) + 0"
    by simp
  have a2: "available (unat (1 :: 64 word) + 0 + 1) [Some 16, Some 32]"
    by (simp add: available_def)
  note w = queue_push_beyond_capacity [OF ex_fresh(1,2) ex_stack_ctor a1 cp len a2]
  from ex_fresh(1,2) ex_stack_ctor a1 len a2 w show ?thesis
    unfolding stack.simps by (intro conjI)
qed

text \<open>
  C6 as stated fails: with \<open>C = 1\<close> and \<open>n = 0\<close>, the one push on the fresh queue
  allocates a node (the allocator moves on from 32), where the claim has no
  allocation.
\<close>

theorem queue_push_allocations_counterexample:
  "queue_ctor (plain 0) 1 [Some 16, Some 32] ex_sal = Some (Return () ex_q0) \<and>
   queue_run (plain 0) [Push 7] ex_q0 = Some (Return [] ex_q1) \<and>
   q_new ex_q0 = [Some 32] \<and> q_new ex_q1 = [] \<and>
   length (q_new ex_q0) - length (q_new ex_q1) \<noteq> 0 \<and> capacity ex_q1 = 2"
  using ex_queue_ctor ex_queue_push by (simp add: ex_q0_def ex_q1_def capacity_def)

theorem queue_fifo_round_trip_witness:
  "queue_inv ex_q3 [16] [] \<and> (\<forall>v. T_copy (plain (0 :: nat)) v = Some v) \<and>
   available (length [7, 8, 9 :: nat]) (q_new ex_q3) \<and>
   available (length [7, 8, 9 :: nat]) (s_new (q_free_f ex_q3)) \<and>
   (\<exists>q'. queue_run (plain 0)
            (map Push [7, 8, 9] @ replicate (length [7, 8, 9 :: nat]) Pop) ex_q3
          = Some (Return (map Some [7, 8, 9]) q') \<and> queue_empty q')"
proof -
  have cp: "\<forall>v. T_copy (plain (0 :: nat)) v = Some v"
    by (simp add: plain_def)
  have a: "available (length [7, 8, 9 :: nat]) (q_new ex_q3)"
    "available (length [7, 8, 9 :: nat]) (s_new (q_free_f ex_q3))"
    by (simp_all add: available_def ex_q3_def)
  from ex_q3_inv cp a queue_fifo_round_trip [OF ex_q3_inv cp a] show ?thesis
    by (intro conjI)
qed

theorem queue_empty_iff_pops_equal_pushes_witness:
  "queue_inv ex_q0 [16] [] \<and> available (pushes [Push (7 :: nat), Pop]) (q_new ex_q0) \<and>
   available (pops [Push (7 :: nat), Pop]) (s_new (q_free_f ex_q0)) \<and>
   (\<exists>rs q'. queue_run (plain 0) [Push 7, Pop] ex_q0 = Some (Return rs q') \<and>
      (queue_empty q' \<longleftrightarrow> head_f q' = tail_f q') \<and>
      (queue_empty q' \<longleftrightarrow>
         length (filter (\<lambda>r. r \<noteq> None) rs) = pushes [Push (7 :: nat), Pop]))"
proof -
  have cp: "\<forall>v. T_copy (plain (0 :: nat)) v = Some v"
    by (simp add: plain_def)
  have a: "available (pushes [Push (7 :: nat), Pop]) (q_new ex_q0)"
    "available (pops [Push (7 :: nat), Pop]) (s_new (q_free_f ex_q0))"
    by (simp_all add: available_def ex_q0_def pushes_def pops_def)
  from ex_q0_inv a queue_empty_iff_pops_equal_pushes [OF ex_q0_inv cp a] show ?thesis
    by (intro conjI)
qed

text \<open>
  C1 at the failing input: \<open>emplace(7)\<close> on the fresh queue of capacity one, with a
  move assignment that raises. The queue allocates the node 32, counts it in
  \<open>capacity_\<close>, and its handler deletes it: the node is in the heap no more and not on
  the free list, and \<open>capacity()\<close> has changed from 1 to 2. And \<open>emplace(7)\<close> on an
  empty stack returns normally: the failure is not surfaced. (The handler of the
  queue's \<open>push\<close> does return the node: \<open>queue_push_failure_returns_node\<close>.)
\<close>

theorem emplace_failure_deletes_node:
  "(\<exists>q'. queue_emplace throwing_move 7 ex_q0 = Some (Throw user_exception q') \<and>
         q_nodes q' 32 = None \<and> pool_rep (q_free_f q') [] \<and> q_new q' = [] \<and>
         capacity ex_q0 = 1 \<and> capacity q' = 2) \<and>
   stack_emplace throwing_move 7
       \<lparr>s_nodes = Map.empty, s_new = [Some 16], free_f = 0, stack_f = 0\<rparr>
     = Return () \<lparr>s_nodes = Map.empty, s_new = [], free_f = 0, stack_f = 0\<rparr>"
proof -
  let ?q = "ex_q0\<lparr>q_new := [], capacity_f := 2\<rparr>"
  have e: "queue_emplace throwing_move 7 ex_q0 = Some (Throw user_exception ?q)"
    by (simp add: stack_eval queue_eval tag_eval ex_q0_def throwing_move_def fun_upd_twist)
  have "pool_rep (q_free_f ?q) []"
    using ex_q0_inv by (simp add: queue_inv_def)
  moreover have "q_nodes ?q 32 = None" "capacity ex_q0 = 1" "capacity ?q = 2"
    by (simp_all add: ex_q0_def capacity_def)
  moreover have "stack_emplace throwing_move 7
       \<lparr>s_nodes = Map.empty, s_new = [Some 16], free_f = 0, stack_f = 0\<rparr>
     = Return () \<lparr>s_nodes = Map.empty, s_new = [], free_f = 0, stack_f = 0\<rparr>"
    by (simp add: stack_eval tag_eval throwing_move_def)
  ultimately show ?thesis
    using e by (intro conjI exI [of _ ?q]) simp_all
qed

text \<open>
  C7 at the failing input: after the same \<open>emplace(7)\<close>, the chain is the sentinel 16
  alone and the free list is empty, while \<open>capacity()\<close> is 2.
\<close>

theorem emplace_failure_breaks_capacity:
  "\<exists>q'. queue_emplace throwing_move 7 ex_q0 = Some (Throw user_exception q') \<and>
        path (q_nodes q') (head_f q') [16] \<and> pool_rep (q_free_f q') [] \<and>
        unat (capacity q') = 2 \<and>
        unat (capacity q') \<noteq> length ([] :: ptr list) + length [16 :: ptr]"
proof -
  let ?q = "ex_q0\<lparr>q_new := [], capacity_f := 2\<rparr>"
  have e: "queue_emplace throwing_move 7 ex_q0 = Some (Throw user_exception ?q)"
    by (simp add: stack_eval queue_eval tag_eval ex_q0_def throwing_move_def fun_upd_twist)
  have "pool_rep (q_free_f ?q) []"
    using ex_q0_inv by (simp add: queue_inv_def)
  moreover have "path (q_nodes ?q) (head_f ?q) [16]" "unat (capacity ?q) = 2"
    by (simp_all add: ex_q0_def capacity_def tag_eval)
  ultimately show ?thesis
    using e by (intro exI [of _ ?q]) simp
qed

end
